theory Spec2Isabelle
  imports Complex_Main "HOL-Library.Sublist"
begin

section \<open>Strings and code units\<close>

text \<open>
  A JavaScript string is a sequence of code units and \<open>length\<close> counts them. A code unit
  is modelled by \<^typ>\<open>char\<close>, so the texts of this development are the strings whose
  code units are below 256 (ASCII and Latin-1). The character classes are the classes
  of ECMAScript regular expressions without the \<open>u\<close> and \<open>i\<close> flags, cut to that range.
\<close>

definition charCode :: "char \<Rightarrow> nat" where
  "charCode c = of_char c"

definition isDigit :: "char \<Rightarrow> bool" where
  "isDigit c = (48 \<le> charCode c \<and> charCode c \<le> 57)"

definition isUpper :: "char \<Rightarrow> bool" where
  "isUpper c = (65 \<le> charCode c \<and> charCode c \<le> 90)"

definition isLower :: "char \<Rightarrow> bool" where
  "isLower c = (97 \<le> charCode c \<and> charCode c \<le> 122)"

definition isAlpha :: "char \<Rightarrow> bool" where
  \<comment> \<open>\<open>[a-zA-Z]\<close>\<close>
  "isAlpha c = (isLower c \<or> isUpper c)"

definition isAlnum :: "char \<Rightarrow> bool" where
  \<comment> \<open>\<open>[a-zA-Z0-9]\<close>\<close>
  "isAlnum c = (isLower c \<or> isUpper c \<or> isDigit c)"

definition isIdentStart :: "char \<Rightarrow> bool" where
  \<comment> \<open>\<open>[A-Za-z_]\<close>\<close>
  "isIdentStart c = (isUpper c \<or> isLower c \<or> c = CHR ''_'')"

definition isWordChar :: "char \<Rightarrow> bool" where
  \<comment> \<open>\<open>\w\<close>, that is \<open>[A-Za-z0-9_]\<close>\<close>
  "isWordChar c = (isUpper c \<or> isLower c \<or> isDigit c \<or> c = CHR ''_'')"

definition isWhiteSpace :: "char \<Rightarrow> bool" where
  \<comment> \<open>\<open>\s\<close>, and what \<open>trim\<close> and \<open>trimStart\<close> strip: tab, line feed, vertical tab, form
      feed, carriage return, space and no-break space\<close>
  "isWhiteSpace c = (charCode c = 9 \<or> charCode c = 10 \<or> charCode c = 11 \<or> charCode c = 12 \<or> charCode c = 13
     \<or> charCode c = 32 \<or> charCode c = 160)"

definition isLineTerminator :: "char \<Rightarrow> bool" where
  "isLineTerminator c = (charCode c = 10 \<or> charCode c = 13)"

definition newline :: char where
  "newline = CHR 0x0A"

definition toLowerChar :: "char \<Rightarrow> char" where
  \<comment> \<open>\<open>A\<close> to \<open>Z\<close>, and the Latin-1 capitals \<open>0xC0\<close> to \<open>0xDE\<close> except the multiplication sign\<close>
  "toLowerChar c =
     (if isUpper c \<or> (192 \<le> charCode c \<and> charCode c \<le> 222 \<and> charCode c \<noteq> 215)
      then char_of (charCode c + 32) else c)"

definition toLowerCase :: "string \<Rightarrow> string" where
  "toLowerCase s = map toLowerChar s"

definition startsWith :: "string \<Rightarrow> string \<Rightarrow> bool" where
  "startsWith t s = (take (length s) t = s)"

fun includesStr :: "string \<Rightarrow> string \<Rightarrow> bool" where
  \<comment> \<open>\<open>t.includes(s)\<close>: \<open>s\<close> occurs in \<open>t\<close> at some position\<close>
  "includesStr [] s = (s = [])"
| "includesStr (c # cs) s = (startsWith (c # cs) s \<or> includesStr cs s)"

fun splitLines :: "string \<Rightarrow> string list" where
  \<comment> \<open>\<open>text.split('\n')\<close>: never empty, the empty text gives one empty line\<close>
  "splitLines [] = [[]]"
| "splitLines (c # cs) =
     (if c = newline then [] # splitLines cs
      else (case splitLines cs of [] \<Rightarrow> [[c]] | l # ls \<Rightarrow> (c # l) # ls))"

definition trimStart :: "string \<Rightarrow> string" where
  "trimStart s = dropWhile isWhiteSpace s"

definition trim :: "string \<Rightarrow> string" where
  "trim s = rev (dropWhile isWhiteSpace (rev (dropWhile isWhiteSpace s)))"

fun join :: "string \<Rightarrow> string list \<Rightarrow> string" where
  \<comment> \<open>\<open>xs.join(sep)\<close>\<close>
  "join sep [] = []"
| "join sep [x] = x"
| "join sep (x # y # ys) = x @ sep @ join sep (y # ys)"

definition digitChar :: "nat \<Rightarrow> char" where
  "digitChar d = char_of (48 + d)"

function toString :: "nat \<Rightarrow> string" where
  \<comment> \<open>the decimal text of a non-negative integer, as a template literal prints it\<close>
  "toString n = (if n < 10 then [digitChar n] else toString (n div 10) @ [digitChar (n mod 10)])"
  by pat_completeness auto
termination
  by (relation "measure (\<lambda>n. n)") auto

declare toString.simps [simp del]

section \<open>Regular expressions\<close>

text \<open>
  The regular expressions of the source use character classes, literal words, sequence,
  alternation, greedy repetition of a class, the optional group, the word boundary
  \<open>\b\<close>, and the anchors \<open>^\<close> and \<open>$\<close>. A match attempt at a position sees the code unit
  before the position (\<open>None\<close> at the start of the input) and the rest of the input; it
  returns the lengths it can consume, in the order in which the backtracking matcher of
  ECMAScript tries them, so the head of the list is the match the engine reports.
\<close>

datatype regex =
    Cls "char \<Rightarrow> bool"
  | Str string
  | Seq regex regex
  | Alt regex regex
  | Opt regex
  | Star "char \<Rightarrow> bool"
  | Plus "char \<Rightarrow> bool"
  | WordBoundary
  | InputStart
  | LineStart
  | InputEnd

definition prevAt :: "char option \<Rightarrow> string \<Rightarrow> nat \<Rightarrow> char option" where
  \<comment> \<open>the code unit before the position reached after consuming \<open>k\<close> code units of \<open>s\<close>\<close>
  "prevAt prev s k = (case rev (take k s) of [] \<Rightarrow> prev | c # _ \<Rightarrow> Some c)"

definition wordBefore :: "char option \<Rightarrow> bool" where
  "wordBefore prev = (case prev of None \<Rightarrow> False | Some c \<Rightarrow> isWordChar c)"

definition wordAfter :: "string \<Rightarrow> bool" where
  "wordAfter s = (case s of [] \<Rightarrow> False | c # _ \<Rightarrow> isWordChar c)"

fun rx_match :: "regex \<Rightarrow> char option \<Rightarrow> string \<Rightarrow> nat list" where
  "rx_match (Cls p) prev s = (case s of [] \<Rightarrow> [] | c # _ \<Rightarrow> if p c then [1] else [])"
| "rx_match (Str w) prev s = (if startsWith s w then [length w] else [])"
| "rx_match (Seq r1 r2) prev s =
     concat (map (\<lambda>k. map (\<lambda>j. k + j) (rx_match r2 (prevAt prev s k) (drop k s)))
                 (rx_match r1 prev s))"
| "rx_match (Alt r1 r2) prev s = rx_match r1 prev s @ rx_match r2 prev s"
| "rx_match (Opt r) prev s = rx_match r prev s @ [0]"
| "rx_match (Star p) prev s = rev [0..<Suc (length (takeWhile p s))]"
| "rx_match (Plus p) prev s = rev [1..<Suc (length (takeWhile p s))]"
| "rx_match WordBoundary prev s = (if wordBefore prev \<noteq> wordAfter s then [0] else [])"
| "rx_match InputStart prev s = (if prev = None then [0] else [])"
| "rx_match LineStart prev s =
     (case prev of None \<Rightarrow> [0] | Some c \<Rightarrow> if isLineTerminator c then [0] else [])"
| "rx_match InputEnd prev s = (if s = [] then [0] else [])"

fun rx_search :: "regex \<Rightarrow> char option \<Rightarrow> string \<Rightarrow> bool" where
  \<comment> \<open>is there a match starting at this position or at a later one\<close>
  "rx_search r prev [] = (rx_match r prev [] \<noteq> [])"
| "rx_search r prev (c # cs) = (rx_match r prev (c # cs) \<noteq> [] \<or> rx_search r (Some c) cs)"

definition rx_test :: "regex \<Rightarrow> string \<Rightarrow> bool" where
  \<comment> \<open>\<open>regex.test(s)\<close> for a regular expression without the \<open>g\<close> and \<open>y\<close> flags\<close>
  "rx_test r s = rx_search r None s"

function rx_replace :: "regex \<Rightarrow> string \<Rightarrow> char option \<Rightarrow> string \<Rightarrow> string" where
  \<comment> \<open>\<open>s.replace(regex, rep)\<close> with the \<open>g\<close> flag: every match, leftmost first, is replaced;
      after an empty match the search moves on by one code unit\<close>
  "rx_replace r rep prev [] = (case rx_match r prev [] of [] \<Rightarrow> [] | k # _ \<Rightarrow> rep)"
| "rx_replace r rep prev (c # cs) =
     (case rx_match r prev (c # cs) of
        [] \<Rightarrow> c # rx_replace r rep (Some c) cs
      | k # _ \<Rightarrow>
          if k = 0 then rep @ c # rx_replace r rep (Some c) cs
          else rep @ rx_replace r rep (prevAt prev (c # cs) k) (drop k (c # cs)))"
  by pat_completeness auto
termination
  by (relation "measure (\<lambda>(r, rep, prev, s). length s)") auto


section \<open>Code units under analysis\<close>

text \<open>
  The parser is an external library. What the engine reads from a class or function
  declaration is its optional name, its source text, its start and end offsets, and, for
  each body, the numbers of \<open>if\<close>, \<open>for\<close> and \<open>while\<close> statements below it. A method or
  function may have no body (an overload signature or an abstract method).
\<close>

record body =
  ifStatements :: nat
  forStatements :: nat
  whileStatements :: nat

record node =
  nodeName :: "string option"
  nodeText :: string
  nodeStart :: nat
  nodeEnd :: nat

datatype unitDecl =
    ClassDeclaration node "body option list"
  | FunctionDeclaration node "body option"

fun nodeOf :: "unitDecl \<Rightarrow> node" where
  "nodeOf (ClassDeclaration n ms) = n"
| "nodeOf (FunctionDeclaration n b) = n"

definition getName :: "unitDecl \<Rightarrow> string option" where
  "getName unit = nodeName (nodeOf unit)"

definition getText :: "unitDecl \<Rightarrow> string" where
  "getText unit = nodeText (nodeOf unit)"

definition getStart :: "unitDecl \<Rightarrow> nat" where
  "getStart unit = nodeStart (nodeOf unit)"

definition getEnd :: "unitDecl \<Rightarrow> nat" where
  "getEnd unit = nodeEnd (nodeOf unit)"

fun isClass :: "unitDecl \<Rightarrow> bool" where
  \<comment> \<open>\<open>unit instanceof ClassDeclaration\<close>\<close>
  "isClass (ClassDeclaration n ms) = True"
| "isClass (FunctionDeclaration n b) = False"

fun orElse :: "string option \<Rightarrow> string \<Rightarrow> string" where
  \<comment> \<open>\<open>name || dflt\<close> on a string that may be undefined: the empty string is falsy too\<close>
  "orElse None dflt = dflt"
| "orElse (Some n) dflt = (if n = [] then dflt else n)"

section \<open>Numbers\<close>

text \<open>
  The numbers of the source are IEEE doubles. Lengths, counts, scores and edit distances
  are integers that a double holds exactly; they are natural numbers and integers here.
  The average indentation, the product of 0.8 and the number of lines, and the
  similarity are not integers in general; they are rationals here. The source compares
  the first with 2 and 4, the second with a count and the third with 0.6. For a text of
  any length that an engine can hold, the rounded value and the exact value lie on the
  same side of the constant, or both are equal to it (as for an average of exactly 2,
  for 0.8 times 5 lines, and for a distance of 2 over a length of 5), so that the tests
  of the model decide as the tests of the source do. The value of \<open>textSimilarity\<close> is
  exact; the source rounds the quotient to a double and then the difference from 1 to a
  double; 0 and 1 are returned as they are.
\<close>

section \<open>Readability\<close>

definition nameRegex :: regex where
  \<comment> \<open>\<open>/^[a-zA-Z][a-zA-Z0-9]*$/\<close>\<close>
  "nameRegex = Seq InputStart (Seq (Cls isAlpha) (Seq (Star isAlnum) InputEnd))"

definition lowerStartRegex :: regex where
  \<comment> \<open>\<open>/^[a-z]/\<close>\<close>
  "lowerStartRegex = Seq InputStart (Cls isLower)"

definition indentLevels :: "string \<Rightarrow> nat list" where
  "indentLevels text = map (\<lambda>line. length line - length (trimStart line)) (splitLines text)"

definition avgIndent :: "string \<Rightarrow> rat" where
  \<comment> \<open>the sum of the indentation widths over the number of lines, which is never zero\<close>
  "avgIndent text = of_nat (fold (\<lambda>b a. a + b) (indentLevels text) 0)
                      / of_nat (length (indentLevels text))"

definition evaluateReadability :: "unitDecl \<Rightarrow> int" where
  "evaluateReadability unit =
     (let score = 100;
          name = orElse (getName unit) [];
          score = (if \<not> rx_test nameRegex name then score - 20 else score);
          score = (if length name < 3 then score - 10 else score);
          score = (if rx_test lowerStartRegex name then score - 20 else score);
          text = getText unit;
          score = (if avgIndent text < 2 \<or> avgIndent text > 4 then score - 15 else score)
      in max 0 score)"

section \<open>Metrics\<close>

record metrics =
  lineCount :: nat
  methodCount :: nat
  complexity :: nat

definition bodyBranches :: "body option \<Rightarrow> nat" where
  \<comment> \<open>what one body adds to the complexity; nothing when the body is missing\<close>
  "bodyBranches b = (case b of None \<Rightarrow> 0
     | Some s \<Rightarrow> ifStatements s + forStatements s + whileStatements s)"

fun computeMetrics :: "unitDecl \<Rightarrow> metrics" where
  "computeMetrics (ClassDeclaration n ms) =
     \<lparr>lineCount = length (splitLines (nodeText n)),
      methodCount = length ms,
      complexity = fold (\<lambda>method c. c + bodyBranches method) ms 1\<rparr>"
| "computeMetrics (FunctionDeclaration n b) =
     \<lparr>lineCount = length (splitLines (nodeText n)),
      methodCount = 1,
      complexity = 1 + bodyBranches b\<rparr>"

section \<open>Responsibilities\<close>

definition responsibilityKeywords :: "(string \<times> string list) list" where
  "responsibilityKeywords =
     [(''data'', [''data'', ''database'', ''query'', ''save'', ''load'']),
      (''ui'', [''ui'', ''view'', ''render'', ''display'', ''button'']),
      (''business'', [''business'', ''logic'', ''calculate'', ''process'']),
      (''validation'', [''validate'', ''check'', ''error'', ''invalid'']),
      (''communication'', [''email'', ''send'', ''http'', ''api'', ''network''])]"

definition identifyResponsibilities :: "unitDecl \<Rightarrow> string list" where
  "identifyResponsibilities unit =
     (let text = toLowerCase (getText unit)
      in fold (\<lambda>(resp, words) responsibilities.
                 if list_ex (\<lambda>word. includesStr text word) words
                 then responsibilities @ [resp] else responsibilities)
              responsibilityKeywords [])"

section \<open>Duplication\<close>

definition trimmedLines :: "string \<Rightarrow> string list" where
  "trimmedLines text = filter (\<lambda>l. length l > 0) (map trim (splitLines text))"

definition hasDuplication :: "unitDecl \<Rightarrow> bool" where
  \<comment> \<open>the size of the set of lines is the number of distinct lines\<close>
  "hasDuplication unit =
     (let lines = trimmedLines (getText unit);
          uniqueLines = remdups lines
      in (of_nat (length uniqueLines) :: rat) < of_nat (length lines) * (8 / 10))"

definition identifierRegex :: regex where
  \<comment> \<open>\<open>/\b[A-Za-z_]\w*\b/g\<close>\<close>
  "identifierRegex = Seq WordBoundary (Seq (Cls isIdentStart) (Seq (Star isWordChar) WordBoundary))"

definition spacesRegex :: regex where
  \<comment> \<open>\<open>/\s+/g\<close>\<close>
  "spacesRegex = Plus isWhiteSpace"

definition normalizeForDuplication :: "string \<Rightarrow> string" where
  "normalizeForDuplication s =
     trim (rx_replace spacesRegex '' '' None (rx_replace identifierRegex ''id'' None s))"

definition min3 :: "nat \<Rightarrow> nat \<Rightarrow> nat \<Rightarrow> nat" where
  \<comment> \<open>\<open>Math.min\<close> of three numbers\<close>
  "min3 x y z = min x (min y z)"

definition levCell :: "string \<Rightarrow> string \<Rightarrow> nat \<Rightarrow> nat \<Rightarrow> nat list list \<Rightarrow> nat list list" where
  \<comment> \<open>the assignment to \<open>dp[i][j]\<close> in the inner loop\<close>
  "levCell a b i j dp =
     dp[i := (dp ! i)[j := min3 (dp ! (i - 1) ! j + 1)
                                (dp ! i ! (j - 1) + 1)
                                (dp ! (i - 1) ! (j - 1) + (if a ! (i - 1) = b ! (j - 1) then 0 else 1))]]"

definition levenshtein :: "string \<Rightarrow> string \<Rightarrow> nat" where
  "levenshtein a b =
     (let m = length a; n = length b;
          dp = replicate (m + 1) (replicate (n + 1) 0);
          dp = fold (\<lambda>i dp. dp[i := (dp ! i)[0 := i]]) [0..<m + 1] dp;
          dp = fold (\<lambda>j dp. dp[0 := (dp ! 0)[j := j]]) [0..<n + 1] dp;
          dp = fold (\<lambda>i dp. fold (\<lambda>j dp. levCell a b i j dp) [1..<n + 1] dp) [1..<m + 1] dp
      in dp ! m ! n)"

definition textSimilarity :: "string \<Rightarrow> string \<Rightarrow> rat" where
  "textSimilarity a b =
     (let na = normalizeForDuplication a;
          nb = normalizeForDuplication b
      in if length na > 1000 \<or> length nb > 1000 then 0
         else if length na = 0 \<and> length nb = 0 then 1
         else let dist = levenshtein na nb
              in 1 - of_nat dist / of_nat (max (length na) (length nb)))"


section \<open>Testability and side effects\<close>

definition wordRegex :: "string \<Rightarrow> regex" where
  \<comment> \<open>\<open>\bword\b\<close>\<close>
  "wordRegex w = Seq WordBoundary (Seq (Str w) WordBoundary)"

definition globalsRegex :: regex where
  \<comment> \<open>\<open>/\bglobal\b|\bwindow\b|\bdocument\b/\<close>\<close>
  "globalsRegex = Alt (wordRegex ''global'') (Alt (wordRegex ''window'') (wordRegex ''document''))"

definition consoleRegex :: regex where
  \<comment> \<open>\<open>/\bconsole\.(log|error|warn)\b/\<close>\<close>
  "consoleRegex =
     Seq WordBoundary (Seq (Str ''console.'')
       (Seq (Alt (Str ''log'') (Alt (Str ''error'') (Str ''warn''))) WordBoundary))"

definition isArithOp :: "char \<Rightarrow> bool" where
  \<comment> \<open>\<open>[+\-*/]\<close>\<close>
  "isArithOp c = (c = CHR ''+'' \<or> c = CHR ''-'' \<or> c = CHR ''*'' \<or> c = CHR ''/'')"

definition bareAssignmentRegex :: regex where
  \<comment> \<open>\<open>/(^|[^.])\b([A-Za-z_]\w*)\s*([+\-*/]?=)\s*/m\<close>\<close>
  "bareAssignmentRegex =
     Seq (Alt LineStart (Cls (\<lambda>c. c \<noteq> CHR ''.'')))
       (Seq WordBoundary
         (Seq (Seq (Cls isIdentStart) (Star isWordChar))
           (Seq (Star isWhiteSpace)
             (Seq (Seq (Opt (Cls isArithOp)) (Str ''=''))
               (Star isWhiteSpace)))))"

definition newRegex :: regex where
  \<comment> \<open>\<open>/\bnew\s+\w+/\<close>\<close>
  "newRegex = Seq WordBoundary (Seq (Str ''new'') (Seq (Plus isWhiteSpace) (Plus isWordChar)))"

definition modifiesThisRegex :: regex where
  \<comment> \<open>\<open>/\bthis\.\w+\s*=/\<close>\<close>
  "modifiesThisRegex =
     Seq WordBoundary (Seq (Str ''this.'') (Seq (Plus isWordChar) (Seq (Star isWhiteSpace) (Str ''=''))))"

definition setterRegex :: regex where
  \<comment> \<open>\<open>/\bset\w+/\<close>\<close>
  "setterRegex = Seq WordBoundary (Seq (Str ''set'') (Plus isWordChar))"

definition isTestable :: "unitDecl \<Rightarrow> bool" where
  "isTestable unit =
     (let text = getText unit;
          hasGlobals = rx_test globalsRegex text;
          hasConsole = rx_test consoleRegex text;
          bareAssignment = rx_test bareAssignmentRegex text
      in \<not> rx_test newRegex text \<and> \<not> hasGlobals \<and> \<not> hasConsole \<and> \<not> bareAssignment)"

definition hasSideEffects :: "unitDecl \<Rightarrow> bool" where
  \<comment> \<open>the first variant of the engine\<close>
  "hasSideEffects unit =
     (let text = getText unit;
          modifiesThis = rx_test modifiesThisRegex text;
          consoleIo = rx_test consoleRegex text;
          bareAssignment = rx_test bareAssignmentRegex text
      in modifiesThis \<or> consoleIo \<or> bareAssignment)"

definition hasSideEffects_second :: "unitDecl \<Rightarrow> bool" where
  \<comment> \<open>\<open>hasSideEffects\<close> of the second variant of the engine\<close>
  "hasSideEffects_second unit =
     (let text = getText unit
      in rx_test modifiesThisRegex text \<or> rx_test setterRegex text)"

section \<open>Dependency graph and cycles\<close>

text \<open>
  The graph is a \<open>Map\<close> from names to lists of names. A \<open>Map\<close> keeps its keys in the order
  of their first insertion and \<open>set\<close> on a key already present replaces the value in
  place, so the graph is an association list with distinct keys.
\<close>

type_synonym graph = "(string \<times> string list) list"

fun mapSet :: "graph \<Rightarrow> string \<Rightarrow> string list \<Rightarrow> graph" where
  "mapSet [] k v = [(k, v)]"
| "mapSet ((k', v') # g) k v = (if k' = k then (k, v) # g else (k', v') # mapSet g k v)"

definition mapGet :: "graph \<Rightarrow> string \<Rightarrow> string list" where
  \<comment> \<open>\<open>graph.get(node) || []\<close>\<close>
  "mapGet g k = (case map_of g k of None \<Rightarrow> [] | Some deps \<Rightarrow> deps)"

definition mapKeys :: "graph \<Rightarrow> string list" where
  "mapKeys g = map fst g"

definition unitDeps :: "unitDecl list \<Rightarrow> string \<Rightarrow> string \<Rightarrow> string list" where
  \<comment> \<open>the inner loop: the names of the other units found in the text\<close>
  "unitDeps units name text =
     fold (\<lambda>otherUnit deps.
             case getName otherUnit of
               None \<Rightarrow> deps
             | Some otherName \<Rightarrow>
                 if otherName \<noteq> [] \<and> otherName \<noteq> name \<and> includesStr text otherName
                 then deps @ [otherName] else deps)
          units []"

definition buildDependencyGraph :: "unitDecl list \<Rightarrow> graph" where
  "buildDependencyGraph units =
     fold (\<lambda>unit graph.
             let name = orElse (getName unit) ''anonymous'';
                 text = getText unit
             in mapSet graph name (unitDeps units name text))
          units []"

fun indexOf :: "string list \<Rightarrow> string \<Rightarrow> int" where
  \<comment> \<open>\<open>path.indexOf(node)\<close>: the first index, or \<open>-1\<close>\<close>
  "indexOf [] x = - 1"
| "indexOf (y # ys) x =
     (if y = x then 0 else (let i = indexOf ys x in if i < 0 then - 1 else i + 1))"

definition slice :: "string list \<Rightarrow> int \<Rightarrow> string list" where
  \<comment> \<open>\<open>path.slice(start)\<close>: a negative start counts from the end\<close>
  "slice xs start =
     (if start < 0 then drop (nat (int (length xs) + start)) xs else drop (nat start) xs)"

definition graphNodes :: "graph \<Rightarrow> string set" where
  "graphNodes g = set (map fst g) \<union> (\<Union>(set (map (set \<circ> snd) g)))"

text \<open>
  \<open>dfs\<close> updates the sets \<open>visited\<close> and \<open>recStack\<close>, the array \<open>path\<close> and the result
  \<open>cycles\<close>. It leaves \<open>recStack\<close> and \<open>path\<close> as it found them (what it adds it removes
  before it returns, and the node it removes from \<open>recStack\<close> was not there before), so
  they are arguments here; \<open>visited\<close> and \<open>cycles\<close> are the state passed through.
  \<open>dfsEach\<close> is the loop over the neighbours.
\<close>

function dfs :: "graph \<Rightarrow> string \<Rightarrow> string list \<Rightarrow> string list
      \<Rightarrow> string list \<times> string list list \<Rightarrow> string list \<times> string list list"
  and dfsEach :: "graph \<Rightarrow> string list \<Rightarrow> string list \<Rightarrow> string list
      \<Rightarrow> string list \<times> string list list \<Rightarrow> string list \<times> string list list"
where
  "dfs graph node recStack path (visited, cycles) =
     (if node \<in> set recStack then (visited, cycles @ [slice path (indexOf path node)])
      else if node \<in> set visited then (visited, cycles)
      else dfsEach graph (mapGet graph node) (node # recStack) (path @ [node])
             (visited @ [node], cycles))"
| "dfsEach graph [] recStack path st = st"
| "dfsEach graph (neighbor # rest) recStack path st =
     dfsEach graph rest recStack path (dfs graph neighbor recStack path st)"
  by pat_completeness auto
termination
proof -
  have nodes: "set (mapGet g k) \<subseteq> graphNodes g" for g k
  proof
    fix x assume "x \<in> set (mapGet g k)"
    then obtain deps where "map_of g k = Some deps" "x \<in> set deps"
      by (cases "map_of g k") (auto simp: mapGet_def)
    then have "(k, deps) \<in> set g" by (auto dest: map_of_SomeD)
    with \<open>x \<in> set deps\<close> show "x \<in> graphNodes g"
      by (force simp: graphNodes_def)
  qed
  have mono:
    "dfs_dfsEach_dom (Inl (g, node, rs, p, st)) \<Longrightarrow> set (fst st) \<subseteq> set (fst (dfs g node rs p st))"
    "dfs_dfsEach_dom (Inr (g', ns, rs', p', st')) \<Longrightarrow> set (fst st') \<subseteq> set (fst (dfsEach g' ns rs' p' st'))"
    for g node rs p st g' ns rs' p' st'
  proof (induction g node rs p st and g' ns rs' p' st' rule: dfs_dfsEach.pinduct)
    case (1 graph node recStack path visited cycles)
    then show ?case by (auto simp: dfs.psimps)
  next
    case (2 graph recStack path st)
    then show ?case by (simp add: dfsEach.psimps)
  next
    case (3 graph neighbor rest recStack path st)
    then show ?case by (simp add: dfsEach.psimps)
  qed
  show ?thesis
  proof (relation "inv_image (less_than <*lex*> less_than)
      (\<lambda>x. case x of
          Inl (g, node, rs, p, st) \<Rightarrow> (card ((graphNodes g \<union> {node}) - set (fst st)), 0)
        | Inr (g, ns, rs, p, st) \<Rightarrow>
            (card ((graphNodes g \<union> set ns) - set (fst st)), Suc (length ns)))", goal_cases)
    case 1
    then show ?case by (intro wf_inv_image wf_lex_prod wf_less_than)
  next
    case (2 graph node recStack path visited cycles)
    have fin: "finite (graphNodes graph)" by (auto simp: graphNodes_def)
    have eq: "graphNodes graph \<union> set (mapGet graph node) = graphNodes graph"
      using nodes by blast
    have "card (graphNodes graph - set (visited @ [node]))
        < card ((graphNodes graph \<union> {node}) - set visited)"
      using 2 fin by (intro psubset_card_mono) auto
    then show ?case by (simp add: eq)
  next
    case (3 graph neighbor rest recStack path st)
    have "card ((graphNodes graph \<union> {neighbor}) - set (fst st))
        \<le> card ((graphNodes graph \<union> set (neighbor # rest)) - set (fst st))"
      by (intro card_mono) (auto simp: graphNodes_def)
    then show ?case by auto
  next
    case (4 graph neighbor rest recStack path st)
    have "card ((graphNodes graph \<union> set rest) - set (fst (dfs graph neighbor recStack path st)))
        \<le> card ((graphNodes graph \<union> set (neighbor # rest)) - set (fst st))"
      using mono(1)[OF 4] by (intro card_mono) (auto simp: graphNodes_def)
    then show ?case by auto
  qed
qed

definition detectCycles :: "graph \<Rightarrow> string list list" where
  "detectCycles graph =
     snd (fold (\<lambda>node st. if node \<notin> set (fst st) then dfs graph node [] [] st else st)
               (mapKeys graph) ([], []))"

section \<open>The analysis of a document\<close>

datatype severity = Information | Warning | Error

record diagnostic =
  rangeOf :: "nat \<times> nat"
  message :: string
  severityOf :: severity
  code :: string
  source :: string

definition mkDiagnostic :: "nat \<times> nat \<Rightarrow> string \<Rightarrow> severity \<Rightarrow> string \<Rightarrow> diagnostic" where
  \<comment> \<open>\<open>new vscode.Diagnostic(range, message, severity)\<close>, then the code and the source\<close>
  "mkDiagnostic r msg sev c =
     \<lparr>rangeOf = r, message = msg, severityOf = sev, code = c, source = ''clean-code-assistant''\<rparr>"

definition unitRange :: "unitDecl \<Rightarrow> nat \<times> nat" where
  "unitRange unit = (getStart unit, getEnd unit)"

text \<open>
  The parsed source file is the list of its top-level class and function declarations
  in source order; \<open>getClasses\<close> and \<open>getFunctions\<close> each keep that order.
\<close>

record document =
  statements :: "unitDecl list"
  textLength :: nat

definition getClasses :: "document \<Rightarrow> unitDecl list" where
  "getClasses doc = filter isClass (statements doc)"

definition getFunctions :: "document \<Rightarrow> unitDecl list" where
  "getFunctions doc = filter (\<lambda>u. \<not> isClass u) (statements doc)"


definition analyzeUnitChecks :: "severity \<Rightarrow> unitDecl \<Rightarrow> diagnostic list \<Rightarrow> diagnostic list" where
  \<comment> \<open>the body of the loop over the units; \<open>push\<close> appends to the list\<close>
  "analyzeUnitChecks severity unit diagnostics =
     (let readabilityScore = evaluateReadability unit;
          diagnostics =
            (if readabilityScore < 90
             then diagnostics @ [mkDiagnostic (unitRange unit)
                    (''Poor readability: Use meaningful names, consistent formatting. Score: ''
                       @ toString (nat readabilityScore) @ ''/100'')
                    severity ''clean-code-assistant.readability'']
             else diagnostics);
          metrics = computeMetrics unit;
          diagnostics =
            (if lineCount metrics > 15
             then diagnostics @ [mkDiagnostic (unitRange unit)
                    (''Large function: '' @ toString (lineCount metrics)
                       @ '' lines. Consider breaking into smaller functions.'')
                    severity ''clean-code-assistant.size'']
             else diagnostics);
          diagnostics =
            (if complexity metrics > 8
             then diagnostics @ [mkDiagnostic (unitRange unit)
                    (''High complexity: Cyclomatic '' @ toString (complexity metrics)
                       @ ''. Refactor into smaller functions or use a strategy pattern.'')
                    severity ''clean-code-assistant.complexity'']
             else diagnostics);
          diagnostics =
            (if isClass unit \<and> methodCount metrics > 10
             then diagnostics @ [mkDiagnostic (unitRange unit)
                    (''God class: '' @ toString (methodCount metrics)
                       @ '' methods. Possible SRP violation.'')
                    severity ''clean-code-assistant.god-class'']
             else diagnostics);
          responsibilities = identifyResponsibilities unit;
          diagnostics =
            (if length responsibilities > 1
             then diagnostics @ [mkDiagnostic (unitRange unit)
                    (''SRP Violation: Unit handles multiple concerns - ''
                       @ join '', '' responsibilities @ ''. Split into separate units.'')
                    severity ''clean-code-assistant.srp'']
             else diagnostics);
          diagnostics =
            (if hasDuplication unit
             then diagnostics @ [mkDiagnostic (unitRange unit)
                    ''Code duplication detected. Extract to shared method.''
                    severity ''clean-code-assistant.duplication'']
             else diagnostics);
          diagnostics =
            (if \<not> isTestable unit
             then diagnostics @ [mkDiagnostic (unitRange unit)
                    ''Code not easily testable (tight coupling, globals).''
                    severity ''clean-code-assistant.testability'']
             else diagnostics);
          diagnostics =
            (if hasSideEffects unit
             then diagnostics @ [mkDiagnostic (unitRange unit)
                    ''Unexpected side effects.''
                    severity ''clean-code-assistant.side-effects'']
             else diagnostics)
      in diagnostics)"

definition cycleDiagnostic :: "severity \<Rightarrow> document \<Rightarrow> string list \<Rightarrow> diagnostic" where
  "cycleDiagnostic severity doc cycle =
     mkDiagnostic (0, textLength doc)
       (''Dependency cycle detected: '' @ join '' -> '' cycle @ ''. Refactor to break loops.'')
       severity ''clean-code-assistant.dependency-cycle''"

definition pairChecks :: "severity \<Rightarrow> unitDecl list \<Rightarrow> nat \<Rightarrow> nat \<Rightarrow> diagnostic list \<Rightarrow> diagnostic list" where
  \<comment> \<open>the body of the inner loop of the cross-unit comparison\<close>
  "pairChecks severity functionsOnly i j diagnostics =
     (let a = functionsOnly ! i;
          b = functionsOnly ! j;
          sim = textSimilarity (getText a) (getText b)
      in if sim > 6 / 10
         then diagnostics @
           [mkDiagnostic (unitRange a)
              (''Code duplication: Similar logic to function '' @ orElse (getName b) ''anonymous'' @ ''.'')
              severity ''clean-code-assistant.duplication'',
            mkDiagnostic (unitRange b)
              (''Code duplication: Similar logic to function '' @ orElse (getName a) ''anonymous'' @ ''.'')
              severity ''clean-code-assistant.duplication'']
         else diagnostics)"

definition analyzeDocument :: "severity \<Rightarrow> document \<Rightarrow> diagnostic list" where
  \<comment> \<open>the analysis of a parsed document, from the unit list to the diagnostics\<close>
  "analyzeDocument severity doc =
     (let classes = getClasses doc;
          functions = getFunctions doc;
          units = classes @ functions;
          diagnostics = fold (analyzeUnitChecks severity) units [];
          dependencyGraph = buildDependencyGraph units;
          cycles = detectCycles dependencyGraph;
          diagnostics = fold (\<lambda>cycle diagnostics. diagnostics @ [cycleDiagnostic severity doc cycle])
                          cycles diagnostics;
          functionsOnly = getFunctions doc;
          diagnostics =
            fold (\<lambda>i diagnostics.
                    fold (\<lambda>j diagnostics. pairChecks severity functionsOnly i j diagnostics)
                      [i + 1..<length functionsOnly] diagnostics)
              [0..<length functionsOnly] diagnostics
      in diagnostics)"

section \<open>The table of the edit distance\<close>

text \<open>
  \<open>editDist a b i j\<close> is the recurrence that the table of \<open>levenshtein\<close> implements: the
  entry for the first \<open>i\<close> code units of \<open>a\<close> and the first \<open>j\<close> code units of \<open>b\<close>.
  \<open>tableShape\<close> and \<open>rowsDone\<close> are the loop invariants of the three loops.
\<close>

fun editDist :: "string \<Rightarrow> string \<Rightarrow> nat \<Rightarrow> nat \<Rightarrow> nat" where
  "editDist a b 0 j = j"
| "editDist a b (Suc i) 0 = Suc i"
| "editDist a b (Suc i) (Suc j) =
     min3 (editDist a b i (Suc j) + 1) (editDist a b (Suc i) j + 1)
          (editDist a b i j + (if a ! i = b ! j then 0 else 1))"

definition tableShape :: "nat \<Rightarrow> nat \<Rightarrow> nat list list \<Rightarrow> bool" where
  "tableShape m n dp = (length dp = m + 1 \<and> (\<forall>i \<le> m. length (dp ! i) = n + 1))"

definition rowsDone :: "string \<Rightarrow> string \<Rightarrow> nat \<Rightarrow> nat \<Rightarrow> nat \<Rightarrow> nat list list \<Rightarrow> bool" where
  "rowsDone a b m n k dp =
     (tableShape m n dp \<and> (\<forall>i \<le> m. dp ! i ! 0 = i) \<and>
      (\<forall>i < k. \<forall>j \<le> n. dp ! i ! j = editDist a b i j))"


section \<open>Example units\<close>

definition functionUnit :: "string \<Rightarrow> string \<Rightarrow> nat \<Rightarrow> unitDecl" where
  \<comment> \<open>a named function declaration with a body free of branches, placed at an offset\<close>
  "functionUnit name text start =
     FunctionDeclaration
       \<lparr>nodeName = Some name, nodeText = text, nodeStart = start, nodeEnd = start + length text\<rparr>
       (Some \<lparr>ifStatements = 0, forStatements = 0, whileStatements = 0\<rparr>)"

definition classUnit :: "string \<Rightarrow> string \<Rightarrow> nat \<Rightarrow> unitDecl" where
  \<comment> \<open>a named class declaration without methods, placed at an offset\<close>
  "classUnit name text start =
     ClassDeclaration
       \<lparr>nodeName = Some name, nodeText = text, nodeStart = start, nodeEnd = start + length text\<rparr>
       []"

definition namelessFunctionUnit :: "string \<Rightarrow> nat \<Rightarrow> unitDecl" where
  \<comment> \<open>a function declaration without a name, as in \<open>export default function () { }\<close>\<close>
  "namelessFunctionUnit text start =
     FunctionDeclaration
       \<lparr>nodeName = None, nodeText = text, nodeStart = start, nodeEnd = start + length text\<rparr>
       (Some \<lparr>ifStatements = 0, forStatements = 0, whileStatements = 0\<rparr>)"

section \<open>Texts that differ in identifier names only\<close>

text \<open>
  Two texts are the same up to the names they use when a scan of both finds, position by
  position, either the same code unit that is not a word character, or two maximal runs
  of word characters that are both names (they start with a letter or an underscore, as
  the identifiers that \<open>normalizeForDuplication\<close> recognises) or are the same run (a number,
  for instance).
\<close>

function sameExceptNames :: "string \<Rightarrow> string \<Rightarrow> bool" where
  "sameExceptNames [] [] = True"
| "sameExceptNames [] (d # b) = False"
| "sameExceptNames (c # a) [] = False"
| "sameExceptNames (c # a) (d # b) =
     (if isWordChar c \<or> isWordChar d
      then ((isIdentStart c \<and> isIdentStart d)
            \<or> takeWhile isWordChar (c # a) = takeWhile isWordChar (d # b))
           \<and> sameExceptNames (dropWhile isWordChar (c # a)) (dropWhile isWordChar (d # b))
      else c = d \<and> sameExceptNames a b)"
  by pat_completeness auto
termination
proof (relation "measure (\<lambda>(a, b). length a + length b)", goal_cases)
  case 1
  then show ?case by simp
next
  case (2 c a d b)
  have "length (dropWhile isWordChar a) \<le> length a" "length (dropWhile isWordChar b) \<le> length b"
    by (rule length_dropWhile_le)+
  then show ?case using 2 by auto
next
  case (3 c a d b)
  then show ?case by simp
qed


definition numberLike :: "string \<Rightarrow> bool" where
  \<comment> \<open>a run of word characters that does not start like a name\<close>
  "numberLike w = (w \<noteq> [] \<and> \<not> isIdentStart (hd w) \<and> list_all isWordChar w)"

section \<open>The parts of the list of diagnostics\<close>

definition crossUnitChecks :: "severity \<Rightarrow> unitDecl list \<Rightarrow> diagnostic list" where
  \<comment> \<open>the two nested loops of the cross-unit comparison, started on the empty list\<close>
  "crossUnitChecks severity functionsOnly =
     fold (\<lambda>i diagnostics.
             fold (\<lambda>j diagnostics. pairChecks severity functionsOnly i j diagnostics)
               [i + 1..<length functionsOnly] diagnostics)
       [0..<length functionsOnly] []"

definition unitRuleOrder :: "unitDecl \<Rightarrow> (bool \<times> string) list" where
  \<comment> \<open>the order of the specification: each rule with the condition under which it reports\<close>
  "unitRuleOrder unit =
     [(evaluateReadability unit < 90, ''clean-code-assistant.readability''),
      (lineCount (computeMetrics unit) > 15, ''clean-code-assistant.size''),
      (complexity (computeMetrics unit) > 8, ''clean-code-assistant.complexity''),
      (isClass unit \<and> methodCount (computeMetrics unit) > 10, ''clean-code-assistant.god-class''),
      (length (identifyResponsibilities unit) > 1, ''clean-code-assistant.srp''),
      (hasDuplication unit, ''clean-code-assistant.duplication''),
      (\<not> isTestable unit, ''clean-code-assistant.testability''),
      (hasSideEffects unit, ''clean-code-assistant.side-effects'')]"

definition appends :: "('a \<Rightarrow> 'b list \<Rightarrow> 'b list) \<Rightarrow> bool" where
  \<comment> \<open>a loop body that only pushes onto the list it is given\<close>
  "appends f = (\<forall>x acc. f x acc = acc @ f x [])"

section \<open>The targets of the edges of a graph\<close>

definition edgeTargets :: "graph \<Rightarrow> string set" where
  \<comment> \<open>the names that occur in some dependency list\<close>
  "edgeTargets g = (\<Union>(k, deps) \<in> set g. set deps)"

section \<open>Example documents\<close>

definition fooUnit :: unitDecl where
  "fooUnit = functionUnit ''foo'' ''function foo() { bar(); }'' 0"

definition barUnit :: unitDecl where
  "barUnit = functionUnit ''bar'' ''function bar() { foo(); }'' 26"

definition fooBarDocument :: document where
  \<comment> \<open>two functions that call each other, on two lines\<close>
  "fooBarDocument = \<lparr>statements = [fooUnit, barUnit], textLength = 51\<rparr>"

definition functionThenClassDocument :: document where
  \<comment> \<open>\<open>function f(){}\<close> on the first line and \<open>class C{}\<close> on the second\<close>
  "functionThenClassDocument =
     \<lparr>statements = [functionUnit ''f'' ''function f(){}'' 0, classUnit ''C'' ''class C{}'' 15],
      textLength = 24\<rparr>"

definition anonymousUnits :: "unitDecl list" where
  \<comment> \<open>a function named \<open>anonymous\<close>, a function that calls it, and a function without a name
      that calls the second\<close>
  "anonymousUnits =
     [functionUnit ''anonymous'' ''function anonymous(){}'' 0,
      functionUnit ''foo'' ''function foo(){ anonymous(); }'' 23,
      namelessFunctionUnit ''export default function(){ foo(); }'' 54]"

definition namelessCallerUnits :: "unitDecl list" where
  \<comment> \<open>the two functions that call each other, and a function without a name that calls the
      first\<close>
  "namelessCallerUnits =
     [fooUnit, barUnit, namelessFunctionUnit ''export default function(){ foo(); }'' 52]"

section \<open>What a regular expression matches\<close>

text \<open>
  The matcher of the engine is compared with the meaning of a regular expression:
  \<open>matches r prev u v\<close> says that \<open>r\<close> matches the string \<open>u\<close>, when \<open>u\<close> is followed by \<open>v\<close> and
  \<open>prev\<close> is the character before \<open>u\<close>, if there is one. A sequence splits \<open>u\<close> in two; the
  assertions match the empty string only.
\<close>

definition prevOf :: "char option \<Rightarrow> string \<Rightarrow> char option" where
  "prevOf prev u = (if u = [] then prev else Some (last u))"

fun matches :: "regex \<Rightarrow> char option \<Rightarrow> string \<Rightarrow> string \<Rightarrow> bool" where
  "matches (Cls p) prev u v = (\<exists>c. u = [c] \<and> p c)"
| "matches (Str w) prev u v = (u = w)"
| "matches (Seq r1 r2) prev u v =
     (\<exists>u1 u2. u = u1 @ u2 \<and> matches r1 prev u1 (u2 @ v) \<and> matches r2 (prevOf prev u1) u2 v)"
| "matches (Alt r1 r2) prev u v = (matches r1 prev u v \<or> matches r2 prev u v)"
| "matches (Opt r) prev u v = (matches r prev u v \<or> u = [])"
| "matches (Star p) prev u v = list_all p u"
| "matches (Plus p) prev u v = (u \<noteq> [] \<and> list_all p u)"
| "matches WordBoundary prev u v = (u = [] \<and> wordBefore prev \<noteq> wordAfter v)"
| "matches InputStart prev u v = (u = [] \<and> prev = None)"
| "matches LineStart prev u v =
     (u = [] \<and> (case prev of None \<Rightarrow> True | Some c \<Rightarrow> isLineTerminator c))"
| "matches InputEnd prev u v = (u = [] \<and> v = [])"

section \<open>The patterns of the side-effect tests\<close>

text \<open>
  The four patterns that the two variants of \<open>hasSideEffects\<close> look for, as properties of
  the text: the text is cut into the part before the pattern, the pieces of the pattern,
  and the part after it.
\<close>

definition atWordStart :: "string \<Rightarrow> bool" where
  "atWordStart pre = (pre = [] \<or> \<not> isWordChar (last pre))"

definition atWordEnd :: "string \<Rightarrow> bool" where
  "atWordEnd post = (post = [] \<or> \<not> isWordChar (hd post))"

definition assignsThisField :: "string \<Rightarrow> bool" where
  "assignsThisField t =
     (\<exists>pre w sp post. t = pre @ ''this.'' @ w @ sp @ ''='' @ post \<and> atWordStart pre
        \<and> w \<noteq> [] \<and> list_all isWordChar w \<and> list_all isWhiteSpace sp)"

definition callsConsole :: "string \<Rightarrow> bool" where
  "callsConsole t =
     (\<exists>pre m post. t = pre @ ''console.'' @ m @ post \<and> atWordStart pre
        \<and> (m = ''log'' \<or> m = ''error'' \<or> m = ''warn'') \<and> atWordEnd post)"

definition assignsBareName :: "string \<Rightarrow> bool" where
  "assignsBareName t =
     (\<exists>pre x sp op post. t = pre @ x @ sp @ op @ ''='' @ post
        \<and> (pre = [] \<or> (\<not> isWordChar (last pre) \<and> last pre \<noteq> CHR ''.''))
        \<and> x \<noteq> [] \<and> isIdentStart (hd x) \<and> list_all isWordChar x \<and> list_all isWhiteSpace sp
        \<and> (op = [] \<or> (\<exists>c. op = [c] \<and> isArithOp c)))"

definition hasSetWord :: "string \<Rightarrow> bool" where
  "hasSetWord t =
     (\<exists>pre w post. t = pre @ ''set'' @ w @ post \<and> atWordStart pre
        \<and> w \<noteq> [] \<and> list_all isWordChar w)"

definition thisAssignUnit :: unitDecl where
  "thisAssignUnit = functionUnit ''f'' ''function f() { this.n = 1; }'' 0"

section \<open>The lines of a text\<close>

text \<open>
  A line of a text is given by three strings: the white space at its start, its core, and
  the white space at its end. \<open>linesOfText text parts\<close> says that the text is these lines,
  joined by line feeds; the core of a line is the line after trimming.
\<close>

definition paddedLine :: "string \<times> string \<times> string \<Rightarrow> string" where
  "paddedLine p = (case p of (a, m, b) \<Rightarrow> a @ m @ b)"

definition coreOf :: "string \<times> string \<times> string \<Rightarrow> string" where
  "coreOf p = (case p of (a, m, b) \<Rightarrow> m)"

definition wellPadded :: "string \<times> string \<times> string \<Rightarrow> bool" where
  "wellPadded p = (case p of (a, m, b) \<Rightarrow>
     (\<forall>c \<in> set (a @ b). isWhiteSpace c) \<and> newline \<notin> set (a @ m @ b)
     \<and> (m \<noteq> [] \<longrightarrow> \<not> isWhiteSpace (hd m) \<and> \<not> isWhiteSpace (last m)))"

definition joinLines :: "string list \<Rightarrow> string" where
  "joinLines ls = concat (map (\<lambda>l. l @ [newline]) (butlast ls)) @ last ls"

definition linesOfText :: "string \<Rightarrow> (string \<times> string \<times> string) list \<Rightarrow> bool" where
  "linesOfText text parts =
     (parts \<noteq> [] \<and> text = joinLines (map paddedLine parts) \<and> (\<forall>p \<in> set parts. wellPadded p))"

definition nonEmptyCores :: "(string \<times> string \<times> string) list \<Rightarrow> string list" where
  "nonEmptyCores parts = filter (\<lambda>m. m \<noteq> []) (map coreOf parts)"

definition dupUnit :: unitDecl where
  \<comment> \<open>a function of seven lines: one ends with a space, one is empty\<close>
  "dupUnit = functionUnit ''f''
     (joinLines [''function f() {'', ''  g();'', ''  g(); '', [], ''  g();'', ''  g();'', ''}'']) 0"

definition dupParts :: "(string \<times> string \<times> string) list" where
  "dupParts = [([], ''function f() {'', []), (''  '', ''g();'', []), (''  '', ''g();'', '' ''),
     ([], [], []), (''  '', ''g();'', []), (''  '', ''g();'', []), ([], ''}'', [])]"

section \<open>Lemmas\<close>

subsection \<open>Loops over a range, and the edit distance\<close>

lemma fold_upt_invariant:
  assumes "P lo s" and "\<And>i s. lo \<le> i \<Longrightarrow> i < hi \<Longrightarrow> P i s \<Longrightarrow> P (Suc i) (f i s)" and "lo \<le> hi"
  shows "P hi (fold f [lo..<hi] s)"
  using assms(3,2)
proof (induction hi rule: dec_induct)
  case base
  then show ?case using assms(1) by simp
next
  case (step k)
  have "P k (fold f [lo..<k] s)" using step by simp
  then have "P (Suc k) (f k (fold f [lo..<k] s))" using step by simp
  then show ?case using step.hyps by simp
qed

lemma editDist_zero_right [simp]: "editDist a b i 0 = i"
  by (cases i) auto

lemma tableShape_update:
  "tableShape m n dp \<Longrightarrow> i \<le> m \<Longrightarrow> tableShape m n (dp[i := (dp ! i)[j := v]])"
  by (auto simp: tableShape_def nth_list_update)

lemma table_update_nth:
  "tableShape m n dp \<Longrightarrow> i \<le> m \<Longrightarrow> j \<le> n \<Longrightarrow> i' \<le> m \<Longrightarrow>
   dp[i := (dp ! i)[j := v]] ! i' ! j' = (if i' = i \<and> j' = j then v else dp ! i' ! j')"
  by (auto simp: tableShape_def nth_list_update)

lemma lev_init_rows:
  fixes m n :: nat
  defines "dp0 \<equiv> replicate (m + 1) (replicate (n + 1) (0::nat))"
  defines "dp1 \<equiv> fold (\<lambda>i dp. dp[i := (dp ! i)[0 := i]]) [0..<m + 1] dp0"
  shows "tableShape m n dp1 \<and> (\<forall>i \<le> m. dp1 ! i ! 0 = i)"
proof -
  let ?P = "\<lambda>k dp. tableShape m n dp \<and> (\<forall>i < k. dp ! i ! 0 = i)"
  have "?P (m + 1) dp1" unfolding dp1_def
  proof (rule fold_upt_invariant[where P = ?P])
    show "?P 0 dp0" by (auto simp: tableShape_def dp0_def simp del: replicate_Suc)
  next
    fix i dp assume "0 \<le> i" "i < m + 1" "?P i dp"
    then show "?P (Suc i) (dp[i := (dp ! i)[0 := i]])"
      by (auto simp: tableShape_update table_update_nth less_Suc_eq)
  qed simp
  then show ?thesis by (auto simp: less_Suc_eq_le)
qed

lemma lev_init_cols:
  assumes "tableShape m n dp1" "\<forall>i \<le> m. dp1 ! i ! 0 = i"
  defines "dp2 \<equiv> fold (\<lambda>j dp. dp[0 := (dp ! 0)[j := j]]) [0..<n + 1] dp1"
  shows "tableShape m n dp2 \<and> (\<forall>i \<le> m. dp2 ! i ! 0 = i) \<and> (\<forall>j \<le> n. dp2 ! 0 ! j = j)"
proof -
  let ?P = "\<lambda>k dp. tableShape m n dp \<and> (\<forall>i \<le> m. dp ! i ! 0 = i) \<and> (\<forall>j < k. dp ! 0 ! j = j)"
  have "?P (n + 1) dp2" unfolding dp2_def
  proof (rule fold_upt_invariant[where P = ?P])
    show "?P 0 dp1" using assms by auto
  next
    fix j dp assume "0 \<le> j" "j < n + 1" "?P j dp"
    then show "?P (Suc j) (dp[0 := (dp ! 0)[j := j]])"
      by (auto simp: tableShape_update table_update_nth less_Suc_eq)
  qed simp
  then show ?thesis by (auto simp: less_Suc_eq_le)
qed

lemma lev_row:
  assumes "rowsDone a b m n i dp" "1 \<le> i" "i \<le> m"
  shows "rowsDone a b m n (Suc i) (fold (\<lambda>j dp. levCell a b i j dp) [1..<n + 1] dp)"
proof -
  let ?Q = "\<lambda>l dp. rowsDone a b m n i dp \<and> (\<forall>j < l. dp ! i ! j = editDist a b i j)"
  define r where "r = fold (\<lambda>j dp. levCell a b i j dp) [1..<n + 1] dp"
  have "?Q (n + 1) r" unfolding r_def
  proof (rule fold_upt_invariant[where P = ?Q])
    show "?Q 1 dp" using assms by (auto simp: rowsDone_def)
  next
    fix j dp' assume j: "1 \<le> j" "j < n + 1" and Q: "?Q j dp'"
    obtain i0 j0 where ij: "i = Suc i0" "j = Suc j0" using assms(2) j(1)
      by (cases i; cases j) auto
    have sh: "tableShape m n dp'" using Q by (simp add: rowsDone_def)
    have up: "dp' ! i0 ! j = editDist a b i0 j" "dp' ! i0 ! j0 = editDist a b i0 j0"
      using Q j ij by (auto simp: rowsDone_def)
    have left: "dp' ! i ! j0 = editDist a b i j0" using Q ij by auto
    have cell: "levCell a b i j dp' ! i' ! j' =
        (if i' = i \<and> j' = j then editDist a b i j else dp' ! i' ! j')" if "i' \<le> m" for i' j'
      unfolding levCell_def using sh assms(3) j that up left
      by (subst table_update_nth[where m = m and n = n]) (auto simp: ij)
    have "tableShape m n (levCell a b i j dp')"
      unfolding levCell_def using sh assms(3) by (rule tableShape_update)
    moreover have "\<forall>i' \<le> m. levCell a b i j dp' ! i' ! 0 = i'"
      using Q j by (auto simp: cell rowsDone_def)
    moreover have "\<forall>i' < i. \<forall>j' \<le> n. levCell a b i j dp' ! i' ! j' = editDist a b i' j'"
      using Q assms(3) by (auto simp: cell rowsDone_def)
    moreover have "\<forall>j' < Suc j. levCell a b i j dp' ! i ! j' = editDist a b i j'"
      using Q assms(3) by (auto simp: cell less_Suc_eq)
    ultimately show "?Q (Suc j) (levCell a b i j dp')" by (simp add: rowsDone_def)
  qed simp
  then have Q: "rowsDone a b m n i r" "\<forall>j < n + 1. r ! i ! j = editDist a b i j" by auto
  have "r ! i' ! j = editDist a b i' j" if "i' < Suc i" "j \<le> n" for i' j
  proof (cases "i' = i")
    case True
    then show ?thesis using Q(2) that by simp
  next
    case False
    then have "i' < i" using that by simp
    then show ?thesis using Q(1) that by (simp add: rowsDone_def)
  qed
  then have "rowsDone a b m n (Suc i) r"
    using Q(1) by (simp add: rowsDone_def)
  then show ?thesis by (simp only: r_def)
qed

lemma levenshtein_editDist: "levenshtein a b = editDist a b (length a) (length b)"
proof -
  define m n where "m = length a" and "n = length b"
  define dp0 where "dp0 = replicate (m + 1) (replicate (n + 1) (0::nat))"
  define dp1 where "dp1 = fold (\<lambda>i dp. dp[i := (dp ! i)[0 := i]]) [0..<m + 1] dp0"
  define dp2 where "dp2 = fold (\<lambda>j dp. dp[0 := (dp ! 0)[j := j]]) [0..<n + 1] dp1"
  define dp3 where "dp3 = fold (\<lambda>i dp. fold (\<lambda>j dp. levCell a b i j dp) [1..<n + 1] dp) [1..<m + 1] dp2"
  have 1: "tableShape m n dp1 \<and> (\<forall>i \<le> m. dp1 ! i ! 0 = i)"
    unfolding dp1_def dp0_def by (rule lev_init_rows)
  have 2: "tableShape m n dp2 \<and> (\<forall>i \<le> m. dp2 ! i ! 0 = i) \<and> (\<forall>j \<le> n. dp2 ! 0 ! j = j)"
    unfolding dp2_def using 1 by (intro lev_init_cols) auto
  have 3: "rowsDone a b m n (m + 1) dp3" unfolding dp3_def
  proof (rule fold_upt_invariant[where P = "rowsDone a b m n"])
    show "rowsDone a b m n 1 dp2" using 2 by (auto simp: rowsDone_def)
  next
    fix i dp assume "1 \<le> i" "i < m + 1" "rowsDone a b m n i dp"
    then show "rowsDone a b m n (Suc i) (fold (\<lambda>j dp. levCell a b i j dp) [1..<n + 1] dp)"
      by (intro lev_row) auto
  qed simp
  have "levenshtein a b = dp3 ! m ! n"
    by (simp add: levenshtein_def Let_def dp3_def dp2_def dp1_def dp0_def m_def n_def)
  also have "\<dots> = editDist a b m n" using 3 by (auto simp: rowsDone_def)
  finally show ?thesis by (simp add: m_def n_def)
qed

lemma min3_commute: "min3 x y z = min3 y x z"
  by (simp add: min3_def min.left_commute)

lemma editDist_sym: "editDist a b i j = editDist b a j i"
proof (induction a b i j rule: editDist.induct)
  case (3 a b i j)
  then show ?case by (auto simp: min3_def min_def)
qed auto

lemma editDist_le_max: "editDist a b i j \<le> max i j"
  by (induction a b i j rule: editDist.induct) (auto simp: min3_def)

lemma editDist_same: "editDist a a i i = 0"
  by (induction i) (auto simp: min3_def)

lemma levenshtein_sym: "levenshtein a b = levenshtein b a"
  by (simp add: levenshtein_editDist editDist_sym[of a b])

lemma levenshtein_le_max: "levenshtein a b \<le> max (length a) (length b)"
  by (simp only: levenshtein_editDist editDist_le_max)

lemma levenshtein_same: "levenshtein a a = 0"
  by (simp add: levenshtein_editDist editDist_same)


subsection \<open>Replacing identifiers\<close>

lemmas char_class_defs = isWordChar_def isIdentStart_def isUpper_def isLower_def isDigit_def
  isAlpha_def isAlnum_def isWhiteSpace_def isLineTerminator_def charCode_def

lemma isIdentStart_word: "isIdentStart c \<Longrightarrow> isWordChar c"
  by (auto simp: isIdentStart_def isWordChar_def)

lemma concat_map_rev_upt:
  assumes "\<And>k. k < n \<Longrightarrow> f k = []"
  shows "concat (map f (rev [0..<Suc n])) = f n"
proof -
  have "concat (map f (rev [0..<n])) = []" using assms by (auto simp: concat_eq_Nil_conv)
  then show ?thesis by simp
qed

lemma wordAfter_drop_takeWhile:
  "k < length (takeWhile isWordChar cs) \<Longrightarrow> wordAfter (drop k cs)"
proof -
  assume k: "k < length (takeWhile isWordChar cs)"
  then have kl: "k < length cs" using length_takeWhile_le[of isWordChar cs] by linarith
  have "takeWhile isWordChar cs ! k \<in> set (takeWhile isWordChar cs)" using k by simp
  then have "isWordChar (takeWhile isWordChar cs ! k)" by (rule set_takeWhileD[THEN conjunct2])
  then have "isWordChar (cs ! k)" using k by (simp add: takeWhile_nth)
  then show ?thesis using kl by (simp add: wordAfter_def Cons_nth_drop_Suc[symmetric])
qed

lemma wordAfter_dropWhile: "\<not> wordAfter (dropWhile isWordChar cs)"
  by (induction cs) (auto simp: wordAfter_def)

lemma prevAt_0 [simp]: "prevAt prev s 0 = prev"
  by (simp add: prevAt_def)

lemma prevAt_Suc_Cons: "prevAt prev (c # cs) (Suc k) = prevAt (Some c) cs k"
  by (simp add: prevAt_def split: list.splits)

lemma map_add_0 [simp]: "map ((+) (0::nat)) xs = xs"
  by (induction xs) auto

lemma rx_match_Seq_boundary:
  "rx_match (Seq WordBoundary r) prev s =
     (if wordBefore prev \<noteq> wordAfter s then rx_match r prev s else [])"
  by simp

lemma rx_match_Seq_Cls:
  "rx_match (Seq (Cls p) r) prev (c # cs) = (if p c then map Suc (rx_match r (Some c) cs) else [])"
  by (simp add: prevAt_def)

lemma wordBefore_prevAt:
  assumes "isWordChar c" "k \<le> length (takeWhile isWordChar cs)"
  shows "wordBefore (prevAt (Some c) cs k)"
proof (cases k)
  case 0
  then show ?thesis using assms by (simp add: prevAt_def wordBefore_def)
next
  case (Suc j)
  then have j: "j < length (takeWhile isWordChar cs)" using assms by simp
  then have jl: "j < length cs" using length_takeWhile_le[of isWordChar cs] by linarith
  have "takeWhile isWordChar cs ! j \<in> set (takeWhile isWordChar cs)" using j by simp
  then have "isWordChar (takeWhile isWordChar cs ! j)" by (rule set_takeWhileD[THEN conjunct2])
  then have w: "isWordChar (cs ! j)" using j by (simp add: takeWhile_nth)
  have "take (Suc j) cs = take j cs @ [cs ! j]" using jl by (rule take_Suc_conv_app_nth)
  then show ?thesis using w Suc by (simp add: prevAt_def wordBefore_def)
qed

lemma identifier_tail_match:
  assumes "isWordChar c"
  shows "rx_match (Seq (Star isWordChar) WordBoundary) (Some c) cs = [length (takeWhile isWordChar cs)]"
proof -
  let ?n = "length (takeWhile isWordChar cs)"
  let ?f = "\<lambda>k. map (\<lambda>j. k + j) (rx_match WordBoundary (prevAt (Some c) cs k) (drop k cs))"
  have "?f k = []" if "k < ?n" for k
    using that wordBefore_prevAt[OF assms, of k cs] wordAfter_drop_takeWhile[of k cs] by simp
  then have "concat (map ?f (rev [0..<Suc ?n])) = ?f ?n" by (rule concat_map_rev_upt)
  moreover have "?f ?n = [?n]"
    using wordBefore_prevAt[OF assms, of ?n cs] wordAfter_dropWhile[of cs]
    by (simp add: dropWhile_eq_drop[symmetric])
  ultimately show ?thesis by simp
qed

lemma identifier_match:
  "rx_match identifierRegex prev s =
     (case s of [] \<Rightarrow> []
      | c # cs \<Rightarrow> if \<not> wordBefore prev \<and> isIdentStart c
                  then [Suc (length (takeWhile isWordChar cs))] else [])"
proof (cases s)
  case Nil
  then show ?thesis by (simp add: identifierRegex_def)
next
  case (Cons c cs)
  show ?thesis
  proof (cases "isIdentStart c")
    case True
    then have w: "isWordChar c" by (simp add: isIdentStart_word)
    then have "wordAfter (c # cs)" by (simp add: wordAfter_def)
    then show ?thesis using True Cons identifier_tail_match[OF w, of cs]
      by (simp add: identifierRegex_def rx_match_Seq_boundary rx_match_Seq_Cls del: rx_match.simps)
  next
    case False
    then show ?thesis using Cons
      by (simp add: identifierRegex_def rx_match_Seq_boundary rx_match_Seq_Cls del: rx_match.simps)
  qed
qed

lemma replace_ident_Nil [simp]: "rx_replace identifierRegex rep prev [] = []"
  by (simp add: identifier_match)

lemma prevAt_last: "take k s \<noteq> [] \<Longrightarrow> prevAt prev s k = Some (last (take k s))"
  by (cases "take k s" rule: rev_cases) (auto simp: prevAt_def)

lemma prevAt_takeWhile:
  "prevAt prev (c # cs) (Suc (length (takeWhile P cs))) = Some (last (c # takeWhile P cs))"
proof -
  have "take (length (takeWhile P cs)) cs = takeWhile P cs"
    by (simp add: takeWhile_eq_take[symmetric])
  then have "take (Suc (length (takeWhile P cs))) (c # cs) = c # takeWhile P cs"
    by simp
  then show ?thesis using prevAt_last[of "Suc (length (takeWhile P cs))" "c # cs" prev]
    by (simp del: take_Suc_Cons)
qed

lemma replace_ident_Cons:
  "rx_replace identifierRegex rep prev (c # cs) =
     (if \<not> wordBefore prev \<and> isIdentStart c
      then rep @ rx_replace identifierRegex rep (Some (last (c # takeWhile isWordChar cs)))
                   (dropWhile isWordChar cs)
      else c # rx_replace identifierRegex rep (Some c) cs)"
  by (simp add: identifier_match prevAt_takeWhile dropWhile_eq_drop[symmetric] del: prevAt_Suc_Cons)

declare rx_replace.simps [simp del]

lemma replace_ident_prev:
  "wordBefore p = wordBefore p' \<Longrightarrow>
   rx_replace identifierRegex rep p s = rx_replace identifierRegex rep p' s"
  by (cases s) (simp_all add: replace_ident_Cons)

lemma replace_word_run:
  "list_all isWordChar w \<Longrightarrow> wordBefore p \<Longrightarrow>
   rx_replace identifierRegex rep p (w @ a)
     = w @ rx_replace identifierRegex rep (if w = [] then p else Some (last w)) a"
proof (induction w arbitrary: p)
  case Nil
  then show ?case by simp
next
  case (Cons c w)
  then have "wordBefore (Some c)" by (simp add: wordBefore_def)
  then show ?case using Cons by (simp add: replace_ident_Cons)
qed

lemma replace_number:
  assumes "numberLike w"
  shows "rx_replace identifierRegex rep p (w @ a) = w @ rx_replace identifierRegex rep (Some (last w)) a"
proof -
  obtain c w' where w: "w = c # w'" using assms by (cases w) (auto simp: numberLike_def)
  then have c: "\<not> isIdentStart c" "isWordChar c" "list_all isWordChar w'"
    using assms by (auto simp: numberLike_def)
  then have "wordBefore (Some c)" by (simp add: wordBefore_def)
  then show ?thesis using c w replace_word_run[of w' "Some c" rep a]
    by (simp add: replace_ident_Cons)
qed

lemma takeWhile_word_append:
  "list_all isWordChar x \<Longrightarrow> \<not> wordAfter a \<Longrightarrow> takeWhile isWordChar (x @ a) = x"
  "list_all isWordChar x \<Longrightarrow> \<not> wordAfter a \<Longrightarrow> dropWhile isWordChar (x @ a) = a"
  by (induction x) (auto simp: wordAfter_def split: list.splits)

lemma numberLike_takeWhile:
  "isWordChar c \<Longrightarrow> \<not> isIdentStart c \<Longrightarrow> numberLike (takeWhile isWordChar (c # a))"
  by (auto simp: numberLike_def list_all_iff dest: set_takeWhileD)

lemma replace_sameExceptNames:
  "sameExceptNames a b \<Longrightarrow> wordBefore p = wordBefore p'
   \<Longrightarrow> (wordBefore p \<longrightarrow> \<not> wordAfter a \<and> \<not> wordAfter b)
   \<Longrightarrow> rx_replace identifierRegex rep p a = rx_replace identifierRegex rep p' b"
proof (induction a b arbitrary: p p' rule: sameExceptNames.induct)
  case 1
  then show ?case by simp
next
  case (2 d b)
  then show ?case by simp
next
  case (3 c a)
  then show ?case by simp
next
  case (4 c a d b)
  show ?case
  proof (cases "isWordChar c \<or> isWordChar d")
    case True
    let ?x = "takeWhile isWordChar (c # a)" and ?y = "takeWhile isWordChar (d # b)"
    have shape: "(isIdentStart c \<and> isIdentStart d) \<or> ?x = ?y"
      and rest: "sameExceptNames (dropWhile isWordChar (c # a)) (dropWhile isWordChar (d # b))"
      using "4.prems"(1) True by auto
    have both: "isWordChar c" "isWordChar d"
      using shape True by (auto simp: isIdentStart_word split: if_splits)
    then have np: "\<not> wordBefore p" "\<not> wordBefore p'"
      using "4.prems"(2,3) by (auto simp: wordAfter_def)
    have da: "dropWhile isWordChar (c # a) = dropWhile isWordChar a"
      and db: "dropWhile isWordChar (d # b) = dropWhile isWordChar b"
      using both by simp_all
    have lx: "wordBefore (Some (last ?x))" "wordBefore (Some (last ?y))"
    proof -
      have nx: "?x \<noteq> []" "?y \<noteq> []" using both by auto
      have "isWordChar (last ?x)"
        using last_in_set[OF nx(1)] by (rule set_takeWhileD[THEN conjunct2])
      moreover have "isWordChar (last ?y)"
        using last_in_set[OF nx(2)] by (rule set_takeWhileD[THEN conjunct2])
      ultimately show "wordBefore (Some (last ?x))" "wordBefore (Some (last ?y))"
        by (simp_all add: wordBefore_def)
    qed
    have IH: "rx_replace identifierRegex rep (Some (last ?x)) (dropWhile isWordChar (c # a))
        = rx_replace identifierRegex rep (Some (last ?y)) (dropWhile isWordChar (d # b))"
      using True rest lx both wordAfter_dropWhile[of a] wordAfter_dropWhile[of b]
      by (intro "4.IH"(1)) (simp_all add: da db)
    show ?thesis
    proof (cases "isIdentStart c \<and> isIdentStart d")
      case True
      then show ?thesis using np IH both by (simp add: replace_ident_Cons)
    next
      case False
      then have xy: "?x = ?y" using shape by blast
      then have cd: "c = d" using both by simp
      then have ni: "\<not> isIdentStart c" "\<not> isIdentStart d" using False by auto
      have nlx: "numberLike ?x" using both(1) ni(1) by (rule numberLike_takeWhile)
      have nly: "numberLike ?y" using both(2) ni(2) by (rule numberLike_takeWhile)
      have A: "rx_replace identifierRegex rep p (c # a)
          = ?x @ rx_replace identifierRegex rep (Some (last ?x)) (dropWhile isWordChar (c # a))"
        using replace_number[OF nlx, of rep p "dropWhile isWordChar (c # a)"]
        by (simp only: takeWhile_dropWhile_id)
      have B: "rx_replace identifierRegex rep p' (d # b)
          = ?y @ rx_replace identifierRegex rep (Some (last ?y)) (dropWhile isWordChar (d # b))"
        using replace_number[OF nly, of rep p' "dropWhile isWordChar (d # b)"]
        by (simp only: takeWhile_dropWhile_id)
      show ?thesis by (simp only: A B IH) (simp only: xy)
    qed
  next
    case False
    then have eq: "c = d" "sameExceptNames a b" using "4.prems"(1) by auto
    have ni: "\<not> isIdentStart c" "\<not> isIdentStart d" using False isIdentStart_word by blast+
    have "rx_replace identifierRegex rep (Some c) a = rx_replace identifierRegex rep (Some d) b"
      using False eq by (intro "4.IH"(2)) (simp_all add: wordBefore_def)
    then show ?thesis using ni eq by (simp add: replace_ident_Cons)
  qed
qed

lemma normalize_sameExceptNames:
  "sameExceptNames a b \<Longrightarrow> normalizeForDuplication a = normalizeForDuplication b"
  using replace_sameExceptNames[of a b None None "''id''"]
  by (simp add: normalizeForDuplication_def wordBefore_def)

subsection \<open>The list of diagnostics\<close>

lemma push_if: "(if c then xs @ [d] else xs) = xs @ (if c then [d] else [])"
  by simp

lemma fold_appends:
  assumes "appends f"
  shows "fold f xs acc = acc @ concat (map (\<lambda>x. f x []) xs)"
proof (induction xs arbitrary: acc)
  case Nil
  then show ?case by simp
next
  case (Cons x xs)
  have "f x acc = acc @ f x []" using assms unfolding appends_def by blast
  then show ?case by (simp add: Cons.IH)
qed

lemma appends_fold: "appends f \<Longrightarrow> fold f xs acc = acc @ fold f xs []"
  by (simp add: fold_appends[of f xs acc] fold_appends[of f xs "[]"])

lemma analyzeUnitChecks_parts:
  "analyzeUnitChecks severity unit diagnostics = diagnostics @
     (if evaluateReadability unit < 90
      then [mkDiagnostic (unitRange unit)
              (''Poor readability: Use meaningful names, consistent formatting. Score: ''
                 @ toString (nat (evaluateReadability unit)) @ ''/100'')
              severity ''clean-code-assistant.readability''] else []) @
     (if lineCount (computeMetrics unit) > 15
      then [mkDiagnostic (unitRange unit)
              (''Large function: '' @ toString (lineCount (computeMetrics unit))
                 @ '' lines. Consider breaking into smaller functions.'')
              severity ''clean-code-assistant.size''] else []) @
     (if complexity (computeMetrics unit) > 8
      then [mkDiagnostic (unitRange unit)
              (''High complexity: Cyclomatic '' @ toString (complexity (computeMetrics unit))
                 @ ''. Refactor into smaller functions or use a strategy pattern.'')
              severity ''clean-code-assistant.complexity''] else []) @
     (if isClass unit \<and> methodCount (computeMetrics unit) > 10
      then [mkDiagnostic (unitRange unit)
              (''God class: '' @ toString (methodCount (computeMetrics unit))
                 @ '' methods. Possible SRP violation.'')
              severity ''clean-code-assistant.god-class''] else []) @
     (if length (identifyResponsibilities unit) > 1
      then [mkDiagnostic (unitRange unit)
              (''SRP Violation: Unit handles multiple concerns - ''
                 @ join '', '' (identifyResponsibilities unit) @ ''. Split into separate units.'')
              severity ''clean-code-assistant.srp''] else []) @
     (if hasDuplication unit
      then [mkDiagnostic (unitRange unit)
              ''Code duplication detected. Extract to shared method.''
              severity ''clean-code-assistant.duplication''] else []) @
     (if \<not> isTestable unit
      then [mkDiagnostic (unitRange unit)
              ''Code not easily testable (tight coupling, globals).''
              severity ''clean-code-assistant.testability''] else []) @
     (if hasSideEffects unit
      then [mkDiagnostic (unitRange unit)
              ''Unexpected side effects.''
              severity ''clean-code-assistant.side-effects''] else [])"
  unfolding analyzeUnitChecks_def Let_def push_if append_assoc ..

lemma appends_analyzeUnitChecks: "appends (analyzeUnitChecks severity)"
  unfolding appends_def
  by (intro allI) (simp only: analyzeUnitChecks_parts[of _ _ "_ :: diagnostic list"] append_Nil)

lemma code_mkDiagnostic [simp]: "code (mkDiagnostic r m s c) = c"
  by (simp add: mkDiagnostic_def)

lemma rangeOf_mkDiagnostic [simp]: "rangeOf (mkDiagnostic r m s c) = r"
  by (simp add: mkDiagnostic_def)

lemma message_mkDiagnostic [simp]: "message (mkDiagnostic r m s c) = m"
  by (simp add: mkDiagnostic_def)

lemma analyzeUnitChecks_codes:
  "map code (analyzeUnitChecks severity unit []) = map snd (filter fst (unitRuleOrder unit))"
  by (simp add: analyzeUnitChecks_parts unitRuleOrder_def)

lemma analyzeUnitChecks_ranges:
  "d \<in> set (analyzeUnitChecks severity unit []) \<Longrightarrow> rangeOf d = unitRange unit"
  by (auto simp: analyzeUnitChecks_parts split: if_splits)

lemma analyzeUnitChecks_not_cycle:
  "d \<in> set (analyzeUnitChecks severity unit []) \<Longrightarrow> code d \<noteq> ''clean-code-assistant.dependency-cycle''"
  by (auto simp: analyzeUnitChecks_parts split: if_splits)

lemma appends_pairChecks: "appends (pairChecks severity functionsOnly i)"
  by (simp add: appends_def pairChecks_def Let_def)

lemma appends_pairLoop:
  "appends (\<lambda>i diagnostics. fold (\<lambda>j diagnostics. pairChecks severity functionsOnly i j diagnostics)
       [i + 1..<length functionsOnly] diagnostics)"
  unfolding appends_def using appends_fold[OF appends_pairChecks] by blast

lemma crossUnitChecks_concat:
  "crossUnitChecks severity fs =
     concat (map (\<lambda>i. concat (map (\<lambda>j. pairChecks severity fs i j []) [i + 1..<length fs]))
              [0..<length fs])"
proof -
  have inner: "fold (\<lambda>j diagnostics. pairChecks severity fs i j diagnostics) xs []
      = concat (map (\<lambda>j. pairChecks severity fs i j []) xs)" for i xs
    using fold_appends[OF appends_pairChecks, of severity fs i xs "[]"] by simp
  have "crossUnitChecks severity fs =
      [] @ concat (map (\<lambda>i. fold (\<lambda>j diagnostics. pairChecks severity fs i j diagnostics)
                               [i + 1..<length fs] []) [0..<length fs])"
    unfolding crossUnitChecks_def by (rule fold_appends[OF appends_pairLoop])
  then show ?thesis by (simp only: inner append_Nil)
qed

lemma crossUnitChecks_code:
  "d \<in> set (crossUnitChecks severity fs) \<Longrightarrow> code d = ''clean-code-assistant.duplication''"
  by (auto simp: crossUnitChecks_concat pairChecks_def Let_def split: if_splits)

lemma appends_cycle: "appends (\<lambda>cycle diagnostics. diagnostics @ [cycleDiagnostic severity doc cycle])"
  by (simp add: appends_def)

lemma analyzeDocument_parts:
  "analyzeDocument severity doc =
     concat (map (\<lambda>unit. analyzeUnitChecks severity unit []) (getClasses doc @ getFunctions doc))
     @ map (cycleDiagnostic severity doc)
         (detectCycles (buildDependencyGraph (getClasses doc @ getFunctions doc)))
     @ crossUnitChecks severity (getFunctions doc)"
proof -
  have 3: "fold (\<lambda>i diagnostics.
             fold (\<lambda>j diagnostics. pairChecks severity (getFunctions doc) i j diagnostics)
               [i + 1..<length (getFunctions doc)] diagnostics)
       [0..<length (getFunctions doc)] acc = acc @ crossUnitChecks severity (getFunctions doc)" for acc
    unfolding crossUnitChecks_def by (rule appends_fold[OF appends_pairLoop])
  have 2: "fold (\<lambda>cycle diagnostics. diagnostics @ [cycleDiagnostic severity doc cycle]) cs acc
      = acc @ map (cycleDiagnostic severity doc) cs" for cs acc
    by (simp add: fold_appends[OF appends_cycle])
  have 1: "fold (analyzeUnitChecks severity) us [] = concat (map (\<lambda>unit. analyzeUnitChecks severity unit []) us)" for us
    by (simp add: fold_appends[OF appends_analyzeUnitChecks])
  show ?thesis
    by (simp only: analyzeDocument_def Let_def 1 2 3 append_assoc)
qed

lemma cycle_diagnostics:
  "filter (\<lambda>d. code d = ''clean-code-assistant.dependency-cycle'') (analyzeDocument severity doc)
     = map (cycleDiagnostic severity doc)
         (detectCycles (buildDependencyGraph (getClasses doc @ getFunctions doc)))"
proof -
  have a: "filter (\<lambda>d. code d = ''clean-code-assistant.dependency-cycle'')
        (concat (map (\<lambda>unit. analyzeUnitChecks severity unit []) us)) = []" for us
    by (auto simp: filter_empty_conv dest: analyzeUnitChecks_not_cycle)
  have b: "filter (\<lambda>d. code d = ''clean-code-assistant.dependency-cycle'')
        (crossUnitChecks severity fs) = []" for fs
    by (auto simp: filter_empty_conv dest: crossUnitChecks_code)
  have c: "filter (\<lambda>d. code d = ''clean-code-assistant.dependency-cycle'')
        (map (cycleDiagnostic severity doc) cs) = map (cycleDiagnostic severity doc) cs" for cs
    by (simp add: filter_map comp_def cycleDiagnostic_def)
  show ?thesis by (simp only: analyzeDocument_parts filter_append a b c append_Nil append_Nil2)
qed

lemma two_unit_graph:
  assumes "getName u1 = Some a" "getName u2 = Some b" "a \<noteq> []" "b \<noteq> []" "a \<noteq> b"
      and "includesStr (getText u1) b" "includesStr (getText u2) a"
  shows "buildDependencyGraph [u1, u2] = [(a, [b]), (b, [a])]"
  using assms by (simp add: buildDependencyGraph_def unitDeps_def Let_def)

lemma two_node_cycle:
  assumes "a \<noteq> b"
  shows "detectCycles [(a, [b]), (b, [a])] = [[a, b]]"
  using assms by (simp add: detectCycles_def mapKeys_def mapGet_def slice_def)


lemma name_a_tests:
  "rx_test nameRegex ''a''" "rx_test lowerStartRegex ''a''"
  by code_simp+

lemma toString_55: "toString 55 = ''55''"
  by code_simp


subsection \<open>The dependency graph and the cycles\<close>

lemma unitDeps_fold_mem:
  assumes "d \<in> set (fold (\<lambda>otherUnit deps.
             case getName otherUnit of
               None \<Rightarrow> deps
             | Some otherName \<Rightarrow>
                 if otherName \<noteq> [] \<and> otherName \<noteq> name \<and> includesStr text otherName
                 then deps @ [otherName] else deps) us acc)"
  shows "d \<in> set acc \<or> (d \<noteq> name \<and> d \<noteq> [] \<and> includesStr text d \<and> (\<exists>u \<in> set us. getName u = Some d))"
  using assms
proof (induction us arbitrary: acc)
  case Nil
  then show ?case by simp
next
  case (Cons u us)
  from Cons.IH[OF Cons.prems[simplified]] show ?case
    by (auto split: option.splits if_splits)
qed

lemma unitDeps_mem:
  "d \<in> set (unitDeps units name text) \<Longrightarrow>
   d \<noteq> name \<and> d \<noteq> [] \<and> includesStr text d \<and> (\<exists>u \<in> set units. getName u = Some d)"
  unfolding unitDeps_def by (drule unitDeps_fold_mem) simp

lemma mapSet_mem:
  "(k', v') \<in> set (mapSet g k v) \<Longrightarrow> (k', v') \<in> set g \<or> (k' = k \<and> v' = v)"
  by (induction g) (auto split: if_splits)

lemma mapSet_fold_mem:
  assumes "(k, deps) \<in> set (fold (\<lambda>unit graph. mapSet graph (key unit) (val unit)) us g)"
  shows "(k, deps) \<in> set g \<or> (\<exists>u \<in> set us. k = key u \<and> deps = val u)"
  using assms
proof (induction us arbitrary: g)
  case Nil
  then show ?case by simp
next
  case (Cons u us)
  from Cons.IH[OF Cons.prems[simplified]] show ?case
    by (auto dest: mapSet_mem)
qed

lemma buildDependencyGraph_mem:
  assumes "(k, deps) \<in> set (buildDependencyGraph units)"
  shows "\<exists>u \<in> set units. k = orElse (getName u) ''anonymous'' \<and> deps = unitDeps units k (getText u)"
proof -
  have "(k, deps) \<in> set (fold (\<lambda>unit graph. mapSet graph (orElse (getName unit) ''anonymous'')
            (unitDeps units (orElse (getName unit) ''anonymous'') (getText unit))) units [])"
    using assms by (simp add: buildDependencyGraph_def Let_def)
  from mapSet_fold_mem[OF this] show ?thesis by auto
qed

lemma buildDependencyGraph_edges:
  assumes "(k, deps) \<in> set (buildDependencyGraph units)" "d \<in> set deps"
  shows "d \<noteq> k \<and> d \<noteq> [] \<and> (\<exists>u \<in> set units. getName u = Some d)"
  using buildDependencyGraph_mem[OF assms(1)] assms(2) unitDeps_mem by blast

lemma indexOf_mem:
  "x \<in> set xs \<Longrightarrow> 0 \<le> indexOf xs x \<and> nat (indexOf xs x) < length xs \<and> xs ! nat (indexOf xs x) = x"
proof (induction xs)
  case Nil
  then show ?case by simp
next
  case (Cons y ys)
  show ?case
  proof (cases "y = x")
    case True
    then show ?thesis by simp
  next
    case False
    then have "x \<in> set ys" using Cons.prems by simp
    from Cons.IH[OF this] False show ?thesis
      by (simp add: Let_def nat_add_distrib)
  qed
qed

lemma slice_indexOf_subset:
  assumes "x \<in> set path"
  shows "set (slice path (indexOf path x)) \<subseteq> insert x (set (tl path))"
proof -
  let ?i = "nat (indexOf path x)"
  have i: "0 \<le> indexOf path x" "?i < length path" "path ! ?i = x"
    using indexOf_mem[OF assms] by auto
  have s: "slice path (indexOf path x) = drop ?i path" using i(1) by (simp add: slice_def)
  show ?thesis
  proof (cases ?i)
    case 0
    then have "hd path = x" using i by (cases path) auto
    then show ?thesis using s 0 assms by (cases path) auto
  next
    case (Suc j)
    then have "drop ?i path = drop j (tl path)" by (simp add: drop_Suc)
    then show ?thesis using s set_drop_subset[of j "tl path"] by auto
  qed
qed

lemma mapGet_targets: "set (mapGet g k) \<subseteq> edgeTargets g"
proof
  fix x assume "x \<in> set (mapGet g k)"
  then obtain deps where "map_of g k = Some deps" "x \<in> set deps"
    by (cases "map_of g k") (auto simp: mapGet_def)
  then have "(k, deps) \<in> set g" by (auto dest: map_of_SomeD)
  with \<open>x \<in> set deps\<close> show "x \<in> edgeTargets g"
    by (force simp: edgeTargets_def)
qed

lemma dfs_cycles_targets:
  "set recStack = set path \<Longrightarrow> path = [] \<or> node \<in> edgeTargets g \<Longrightarrow> set (tl path) \<subseteq> edgeTargets g
   \<Longrightarrow> \<forall>c \<in> set (snd st). set c \<subseteq> edgeTargets g
   \<Longrightarrow> \<forall>c \<in> set (snd (dfs g node recStack path st)). set c \<subseteq> edgeTargets g"
  "set recStack = set path \<Longrightarrow> set ns \<subseteq> edgeTargets g \<Longrightarrow> set (tl path) \<subseteq> edgeTargets g
   \<Longrightarrow> \<forall>c \<in> set (snd st). set c \<subseteq> edgeTargets g
   \<Longrightarrow> \<forall>c \<in> set (snd (dfsEach g ns recStack path st)). set c \<subseteq> edgeTargets g"
proof (induction g node recStack path st and g ns recStack path st rule: dfs_dfsEach.induct)
  case (1 graph node recStack path visited cycles)
  show ?case
  proof (cases "node \<in> set recStack")
    case True
    then have np: "node \<in> set path" using "1.prems"(1) by simp
    then have "path \<noteq> []" by auto
    then have nt: "node \<in> edgeTargets graph" using "1.prems"(2) by simp
    have "set (slice path (indexOf path node)) \<subseteq> edgeTargets graph"
      using slice_indexOf_subset[OF np] nt "1.prems"(3) by auto
    then show ?thesis using True "1.prems"(4) by simp
  next
    case False
    show ?thesis
    proof (cases "node \<in> set visited")
      case True
      then show ?thesis using False "1.prems"(4) by simp
    next
      case nv: False
      have tl: "set (tl (path @ [node])) \<subseteq> edgeTargets graph"
        using "1.prems"(2,3) by (cases path) auto
      have "\<forall>c \<in> set (snd (dfsEach graph (mapGet graph node) (node # recStack) (path @ [node])
                (visited @ [node], cycles))). set c \<subseteq> edgeTargets graph"
        using False nv "1.prems"(1,4) tl mapGet_targets[of graph node]
        by (intro "1.IH") auto
      then show ?thesis using False nv by simp
    qed
  qed
next
  case (2 graph recStack path st)
  then show ?case by simp
next
  case (3 graph neighbor rest recStack path st)
  have a: "\<forall>c \<in> set (snd (dfs graph neighbor recStack path st)). set c \<subseteq> edgeTargets graph"
    using "3.prems" by (intro "3.IH"(1)) auto
  have "\<forall>c \<in> set (snd (dfsEach graph rest recStack path (dfs graph neighbor recStack path st))).
      set c \<subseteq> edgeTargets graph"
    using "3.prems" a by (intro "3.IH"(2)) auto
  then show ?case by simp
qed

lemma detectCycles_targets:
  "c \<in> set (detectCycles g) \<Longrightarrow> set c \<subseteq> edgeTargets g"
proof -
  have "\<forall>c \<in> set (snd st). set c \<subseteq> edgeTargets g \<Longrightarrow>
        \<forall>c \<in> set (snd (fold (\<lambda>node st. if node \<notin> set (fst st) then dfs g node [] [] st else st) ks st)).
           set c \<subseteq> edgeTargets g" for ks st
  proof (induction ks arbitrary: st)
    case Nil
    then show ?case by simp
  next
    case (Cons k ks)
    have "\<forall>c \<in> set (snd (dfs g k [] [] st)). set c \<subseteq> edgeTargets g"
      using Cons.prems by (intro dfs_cycles_targets(1)) auto
    then show ?case using Cons by simp
  qed
  from this[of "([], [])" "mapKeys g"] show "c \<in> set (detectCycles g) \<Longrightarrow> set c \<subseteq> edgeTargets g"
    by (auto simp: detectCycles_def)
qed

subsection \<open>The matcher and what a regular expression matches\<close>

lemma prevAt_prevOf: "prevAt prev s k = prevOf prev (take k s)"
  by (cases "take k s" rule: rev_cases) (auto simp: prevAt_def prevOf_def)

lemma takeWhile_prefix_iff:
  "k \<le> length (takeWhile P s) \<longleftrightarrow> k \<le> length s \<and> list_all P (take k s)"
proof (induction s arbitrary: k)
  case Nil
  then show ?case by simp
next
  case (Cons c s)
  then show ?case by (cases k) auto
qed

lemma startsWith_iff: "startsWith s w \<longleftrightarrow> length w \<le> length s \<and> take (length w) s = w"
  by (auto simp: startsWith_def) (metis length_take min.absorb_iff2 nat_le_linear take_all)

lemma rx_match_matches:
  "k \<in> set (rx_match r prev s) \<longleftrightarrow> k \<le> length s \<and> matches r prev (take k s) (drop k s)"
proof (induction r arbitrary: k prev s)
  case (Cls p)
  show ?case
  proof (cases s)
    case Nil
    then show ?thesis by simp
  next
    case (Cons c cs)
    then show ?thesis by (cases k) (auto simp: take_Suc_conv_app_nth)
  qed
next
  case (Str w)
  then show ?case by (auto simp: startsWith_iff)
next
  case (Seq r1 r2)
  show ?case
  proof
    assume "k \<in> set (rx_match (Seq r1 r2) prev s)"
    then obtain k1 k2 where k: "k = k1 + k2" "k1 \<in> set (rx_match r1 prev s)"
        "k2 \<in> set (rx_match r2 (prevAt prev s k1) (drop k1 s))"
      by auto
    from k(2) have 1: "k1 \<le> length s" "matches r1 prev (take k1 s) (drop k1 s)"
      by (simp_all add: Seq.IH(1))
    from k(3) have 2: "k2 \<le> length s - k1"
        "matches r2 (prevOf prev (take k1 s)) (take k2 (drop k1 s)) (drop k2 (drop k1 s))"
      by (simp_all add: Seq.IH(2) prevAt_prevOf)
    have t: "take k s = take k1 s @ take k2 (drop k1 s)" using k(1) by (simp add: take_add)
    have d: "drop k1 s = take k2 (drop k1 s) @ drop k s"
      using k(1) by (metis add.commute append_take_drop_id drop_drop)
    have "matches r1 prev (take k1 s) (take k2 (drop k1 s) @ drop k s)" using 1(2) d by simp
    moreover have "matches r2 (prevOf prev (take k1 s)) (take k2 (drop k1 s)) (drop k s)"
      using 2(2) k(1) by (simp add: add.commute)
    ultimately show "k \<le> length s \<and> matches (Seq r1 r2) prev (take k s) (drop k s)"
      using 1(1) 2(1) k(1) t by auto
  next
    assume a: "k \<le> length s \<and> matches (Seq r1 r2) prev (take k s) (drop k s)"
    then obtain u1 u2 where u: "take k s = u1 @ u2" "matches r1 prev u1 (u2 @ drop k s)"
        "matches r2 (prevOf prev u1) u2 (drop k s)"
      by auto
    have s: "s = u1 @ u2 @ drop k s" using u(1) by (metis append.assoc append_take_drop_id)
    have len: "length u1 + length u2 = k" using u(1) a by (metis length_append length_take min.absorb2)
    have t1: "take (length u1) s = u1" and d1: "drop (length u1) s = u2 @ drop k s"
      using s by (metis append_eq_conv_conj)+
    have "length u1 \<in> set (rx_match r1 prev s)"
      using u(2) t1 d1 len a by (simp add: Seq.IH(1))
    moreover have "length u2 \<in> set (rx_match r2 (prevAt prev s (length u1)) (drop (length u1) s))"
      using u(3) t1 d1 by (simp add: Seq.IH(2) prevAt_prevOf)
    ultimately show "k \<in> set (rx_match (Seq r1 r2) prev s)"
      using len by force
  qed
next
  case (Alt r1 r2)
  then show ?case by auto
next
  case (Opt r)
  then show ?case by auto
next
  case (Star p)
  show ?case using takeWhile_prefix_iff[of k p s] by auto
next
  case (Plus p)
  show ?case using takeWhile_prefix_iff[of k p s] by (cases k) auto
next
  case WordBoundary
  then show ?case by auto
next
  case InputStart
  then show ?case by auto
next
  case LineStart
  then show ?case by (auto split: option.splits)
next
  case InputEnd
  then show ?case by auto
qed

lemma rx_search_iff:
  "rx_search r prev s \<longleftrightarrow> (\<exists>pre rest. s = pre @ rest \<and> rx_match r (prevOf prev pre) rest \<noteq> [])"
proof (induction s arbitrary: prev)
  case Nil
  then show ?case by (simp add: prevOf_def)
next
  case (Cons c s)
  show ?case
  proof
    assume "rx_search r prev (c # s)"
    then consider "rx_match r prev (c # s) \<noteq> []" | "rx_search r (Some c) s" by auto
    then show "\<exists>pre rest. c # s = pre @ rest \<and> rx_match r (prevOf prev pre) rest \<noteq> []"
    proof cases
      case 1
      then have "c # s = [] @ (c # s) \<and> rx_match r (prevOf prev []) (c # s) \<noteq> []"
        by (simp add: prevOf_def)
      then show ?thesis by blast
    next
      case 2
      then obtain pre rest where "s = pre @ rest" "rx_match r (prevOf (Some c) pre) rest \<noteq> []"
        using Cons.IH by blast
      then have "c # s = (c # pre) @ rest \<and> rx_match r (prevOf prev (c # pre)) rest \<noteq> []"
        by (auto simp: prevOf_def)
      then show ?thesis by blast
    qed
  next
    assume "\<exists>pre rest. c # s = pre @ rest \<and> rx_match r (prevOf prev pre) rest \<noteq> []"
    then obtain pre rest where p: "c # s = pre @ rest" "rx_match r (prevOf prev pre) rest \<noteq> []"
      by blast
    show "rx_search r prev (c # s)"
    proof (cases pre)
      case Nil
      then have "rx_match r prev (c # s) \<noteq> []" using p by (simp add: prevOf_def)
      then show ?thesis by simp
    next
      case (Cons d pre')
      then have "s = pre' @ rest" "rx_match r (prevOf (Some c) pre') rest \<noteq> []"
        using p by (auto simp: prevOf_def)
      then have "rx_search r (Some c) s" using Cons.IH by blast
      then show ?thesis by simp
    qed
  qed
qed

lemma rx_test_iff:
  "rx_test r t \<longleftrightarrow> (\<exists>pre u post. t = pre @ u @ post \<and> matches r (prevOf None pre) u post)"
proof
  assume "rx_test r t"
  then obtain pre rest where p: "t = pre @ rest" "rx_match r (prevOf None pre) rest \<noteq> []"
    by (auto simp: rx_test_def rx_search_iff)
  then obtain k where "k \<in> set (rx_match r (prevOf None pre) rest)" by (cases "rx_match r (prevOf None pre) rest") auto
  then have "matches r (prevOf None pre) (take k rest) (drop k rest)" by (simp add: rx_match_matches)
  moreover have "t = pre @ take k rest @ drop k rest" using p by simp
  ultimately show "\<exists>pre u post. t = pre @ u @ post \<and> matches r (prevOf None pre) u post" by blast
next
  assume "\<exists>pre u post. t = pre @ u @ post \<and> matches r (prevOf None pre) u post"
  then obtain pre u post where p: "t = pre @ u @ post" "matches r (prevOf None pre) u post" by blast
  then have "length u \<in> set (rx_match r (prevOf None pre) (u @ post))"
    by (simp add: rx_match_matches)
  then have "rx_match r (prevOf None pre) (u @ post) \<noteq> []" by auto
  then show "rx_test r t" using p(1) by (auto simp: rx_test_def rx_search_iff)
qed

lemma rx_testI: "t = pre @ u @ post \<Longrightarrow> matches r (prevOf None pre) u post \<Longrightarrow> rx_test r t"
  unfolding rx_test_iff by blast

lemma rx_testE:
  assumes "rx_test r t"
  obtains pre u post where "t = pre @ u @ post" "matches r (prevOf None pre) u post"
  using assms unfolding rx_test_iff by blast

lemma wordBefore_prevOf: "wordBefore (prevOf None pre) \<longleftrightarrow> pre \<noteq> [] \<and> isWordChar (last pre)"
  by (simp add: wordBefore_def prevOf_def)

lemma word_letters:
  "isWordChar CHR ''s''" "isWordChar CHR ''t''" "isWordChar CHR ''c''"
  "isWordChar CHR ''g''" "isWordChar CHR ''r''" "isWordChar CHR ''n''"
  "\<not> isWordChar CHR ''=''" "\<not> isWordChar CHR ''.''"
  by (simp_all add: char_class_defs)

lemma matches_setter:
  "matches setterRegex p u post \<longleftrightarrow>
     \<not> wordBefore p \<and> (\<exists>w. u = ''set'' @ w \<and> w \<noteq> [] \<and> list_all isWordChar w)"
  by (auto simp: setterRegex_def prevOf_def wordAfter_def word_letters)

lemma matches_modifiesThis:
  "matches modifiesThisRegex p u post \<longleftrightarrow>
     \<not> wordBefore p \<and> (\<exists>w sp. u = ''this.'' @ w @ sp @ ''='' \<and> w \<noteq> [] \<and> list_all isWordChar w
        \<and> list_all isWhiteSpace sp)"
  by (auto simp: modifiesThisRegex_def prevOf_def wordAfter_def word_letters)

lemma matches_Seq_boundary_front:
  "matches (Seq WordBoundary r) p u v \<longleftrightarrow> wordBefore p \<noteq> wordAfter (u @ v) \<and> matches r p u v"
  by (simp add: prevOf_def)

lemma matches_Seq_boundary_back:
  "matches (Seq r WordBoundary) p u v \<longleftrightarrow> matches r p u v \<and> wordBefore (prevOf p u) \<noteq> wordAfter v"
  by simp

lemma matches_Seq_Str:
  "matches (Seq (Str w) r) p u v \<longleftrightarrow> (\<exists>u2. u = w @ u2 \<and> matches r (prevOf p w) u2 v)"
  by simp

lemma matches_console:
  "matches consoleRegex p u post \<longleftrightarrow>
     \<not> wordBefore p \<and> \<not> wordAfter post
     \<and> (u = ''console.log'' \<or> u = ''console.error'' \<or> u = ''console.warn'')"
proof -
  have m: "matches (Alt (Str ''log'') (Alt (Str ''error'') (Str ''warn''))) q u2 v
      \<longleftrightarrow> u2 = ''log'' \<or> u2 = ''error'' \<or> u2 = ''warn''" for q u2 v
    by simp
  have e: "wordBefore (prevOf q u2)" if "u2 = ''log'' \<or> u2 = ''error'' \<or> u2 = ''warn''" for q u2
    using that by (elim disjE) (simp_all add: prevOf_def wordBefore_def word_letters)
  have s: "wordAfter ((''console.'' @ u2) @ v)" for u2 v
    by (simp add: wordAfter_def word_letters)
  have "matches consoleRegex p u post \<longleftrightarrow>
      wordBefore p \<noteq> wordAfter (u @ post)
      \<and> (\<exists>u2. u = ''console.'' @ u2 \<and> (u2 = ''log'' \<or> u2 = ''error'' \<or> u2 = ''warn'')
            \<and> wordBefore (prevOf (prevOf p ''console.'') u2) \<noteq> wordAfter post)"
    unfolding consoleRegex_def matches_Seq_boundary_front matches_Seq_Str matches_Seq_boundary_back m ..
  also have "\<dots> \<longleftrightarrow> \<not> wordBefore p \<and> \<not> wordAfter post
      \<and> (\<exists>u2. u = ''console.'' @ u2 \<and> (u2 = ''log'' \<or> u2 = ''error'' \<or> u2 = ''warn''))"
    using e s by blast
  also have "\<dots> \<longleftrightarrow> \<not> wordBefore p \<and> \<not> wordAfter post
     \<and> (u = ''console.log'' \<or> u = ''console.error'' \<or> u = ''console.warn'')"
  proof -
    have "(\<exists>u2. u = ''console.'' @ u2 \<and> (u2 = ''log'' \<or> u2 = ''error'' \<or> u2 = ''warn''))
        \<longleftrightarrow> (u = ''console.'' @ ''log'' \<or> u = ''console.'' @ ''error'' \<or> u = ''console.'' @ ''warn'')"
      by blast
    then show ?thesis by simp
  qed
  finally show ?thesis .
qed

lemma lineTerminator_plain: "isLineTerminator c \<Longrightarrow> \<not> isWordChar c \<and> c \<noteq> CHR ''.''"
  by (auto simp: char_class_defs)

lemma matches_SeqI:
  "matches r1 prev u1 (u2 @ v) \<Longrightarrow> matches r2 (prevOf prev u1) u2 v
   \<Longrightarrow> matches (Seq r1 r2) prev (u1 @ u2) v"
  by auto

lemma matches_bare:
  "matches bareAssignmentRegex p u post \<longleftrightarrow>
     (\<exists>lead c x sp op sp2. u = lead @ (c # x) @ sp @ op @ ''='' @ sp2
        \<and> (lead = [] \<and> (case p of None \<Rightarrow> True | Some d \<Rightarrow> isLineTerminator d)
            \<or> (\<exists>d. lead = [d] \<and> d \<noteq> CHR ''.''))
        \<and> \<not> wordBefore (prevOf p lead)
        \<and> isIdentStart c \<and> list_all isWordChar x \<and> list_all isWhiteSpace sp
        \<and> (op = [] \<or> (\<exists>d. op = [d] \<and> isArithOp d)) \<and> list_all isWhiteSpace sp2)"
  (is "?L \<longleftrightarrow> ?R")
proof
  assume ?L
  then obtain lead c x sp op sp2 where
    "u = lead @ (c # x) @ sp @ op @ ''='' @ sp2"
    "lead = [] \<and> (case p of None \<Rightarrow> True | Some d \<Rightarrow> isLineTerminator d) \<or> (\<exists>d. lead = [d] \<and> d \<noteq> CHR ''.'')"
    "wordBefore (prevOf p lead) = (\<not> wordAfter ((c # x) @ sp @ op @ ''='' @ sp2 @ post))"
    "isIdentStart c" "list_all isWordChar x" "list_all isWhiteSpace sp"
    "op = [] \<or> (\<exists>d. op = [d] \<and> isArithOp d)" "list_all isWhiteSpace sp2"
    unfolding bareAssignmentRegex_def matches.simps by (elim exE conjE) (simp, blast)
  moreover from this have "\<not> wordBefore (prevOf p lead)"
    by (simp add: wordAfter_def isIdentStart_word)
  ultimately show ?R by (intro exI conjI)
next
  assume ?R
  then obtain lead c x sp op sp2 where h:
    "u = lead @ (c # x) @ sp @ op @ ''='' @ sp2"
    "lead = [] \<and> (case p of None \<Rightarrow> True | Some d \<Rightarrow> isLineTerminator d) \<or> (\<exists>d. lead = [d] \<and> d \<noteq> CHR ''.'')"
    "\<not> wordBefore (prevOf p lead)"
    "isIdentStart c" "list_all isWordChar x" "list_all isWhiteSpace sp"
    "op = [] \<or> (\<exists>d. op = [d] \<and> isArithOp d)" "list_all isWhiteSpace sp2"
    by (elim exE conjE)
  let ?tail = "(c # x) @ sp @ op @ ''='' @ sp2"
  have wb: "wordBefore (prevOf p lead) \<noteq> wordAfter (?tail @ post)"
    using h(3,4) by (simp add: wordAfter_def isIdentStart_word)
  have 1: "matches (Alt LineStart (Cls (\<lambda>c. c \<noteq> CHR ''.''))) p lead (([] @ ?tail) @ post)"
    using h(2) by auto
  have op: "matches (Opt (Cls isArithOp)) q op v" for q v
    using h(7) by auto
  have eq: "matches (Str ''='') q ''='' v" for q v
    by simp
  have 6: "matches (Seq (Opt (Cls isArithOp)) (Str ''='')) q (op @ ''='') v" for q v
    by (rule matches_SeqI[OF op eq])
  have ws2: "matches (Star isWhiteSpace) q sp2 v" for q v
    using h(8) by simp
  have 5: "matches (Seq (Seq (Opt (Cls isArithOp)) (Str ''='')) (Star isWhiteSpace)) q
      ((op @ ''='') @ sp2) post" for q
    by (rule matches_SeqI[OF 6 ws2])
  have ws1: "matches (Star isWhiteSpace) q sp v" for q v
    using h(6) by simp
  have 4: "matches (Seq (Star isWhiteSpace) (Seq (Seq (Opt (Cls isArithOp)) (Str ''='')) (Star isWhiteSpace)))
      q (sp @ (op @ ''='') @ sp2) post" for q
    by (rule matches_SeqI[OF ws1 5])
  have c1: "matches (Cls isIdentStart) q [c] v" for q v
    using h(4) by simp
  have xs: "matches (Star isWordChar) q x v" for q v
    using h(5) by simp
  have 3: "matches (Seq (Cls isIdentStart) (Star isWordChar)) q ([c] @ x) v" for q v
    by (rule matches_SeqI[OF c1 xs])
  have 2: "matches (Seq (Seq (Cls isIdentStart) (Star isWordChar))
       (Seq (Star isWhiteSpace) (Seq (Seq (Opt (Cls isArithOp)) (Str ''='')) (Star isWhiteSpace))))
      q (([c] @ x) @ sp @ (op @ ''='') @ sp2) post" for q
    by (rule matches_SeqI[OF 3 4])
  have t: "([c] @ x) @ sp @ (op @ ''='') @ sp2 = ?tail" by simp
  have b: "matches WordBoundary (prevOf p lead) [] (?tail @ post)"
    using wb by simp
  have 0: "matches (Seq WordBoundary (Seq (Seq (Cls isIdentStart) (Star isWordChar))
       (Seq (Star isWhiteSpace) (Seq (Seq (Opt (Cls isArithOp)) (Str ''='')) (Star isWhiteSpace)))))
      (prevOf p lead) ([] @ ?tail) post"
    by (rule matches_SeqI[OF b]) (simp only: 2[unfolded t] prevOf_def if_True)
  have "matches bareAssignmentRegex p (lead @ [] @ ?tail) post"
    unfolding bareAssignmentRegex_def by (rule matches_SeqI[OF 1 0])
  then show ?L unfolding h(1) by simp
qed

subsection \<open>The patterns of the side-effect tests\<close>

lemma atWordStart_prevOf: "\<not> wordBefore (prevOf None pre) \<longleftrightarrow> atWordStart pre"
  by (auto simp: wordBefore_prevOf atWordStart_def)

lemma atWordEnd_wordAfter: "\<not> wordAfter post \<longleftrightarrow> atWordEnd post"
  by (cases post) (simp_all add: wordAfter_def atWordEnd_def)

lemma setter_iff: "rx_test setterRegex t \<longleftrightarrow> hasSetWord t"
proof
  assume "rx_test setterRegex t"
  then obtain pre u post where t: "t = pre @ u @ post"
      and m: "matches setterRegex (prevOf None pre) u post"
    by (rule rx_testE)
  have mm: "\<not> wordBefore (prevOf None pre) \<and> (\<exists>w. u = ''set'' @ w \<and> w \<noteq> [] \<and> list_all isWordChar w)"
    using m unfolding matches_setter .
  then obtain w where w: "u = ''set'' @ w" "w \<noteq> []" "list_all isWordChar w" by (elim exE conjE)
  have nb: "atWordStart pre" using mm unfolding atWordStart_prevOf by simp
  have tt: "t = pre @ ''set'' @ w @ post" unfolding t w(1) by simp
  show "hasSetWord t" unfolding hasSetWord_def
    apply (rule exI[of _ pre], rule exI[of _ w], rule exI[of _ post])
    using tt w(2,3) nb by (intro conjI)
next
  assume "hasSetWord t"
  then obtain pre w post where h: "t = pre @ ''set'' @ w @ post" "atWordStart pre"
      "w \<noteq> []" "list_all isWordChar w"
    unfolding hasSetWord_def by (elim exE conjE)
  have "\<exists>w'. ''set'' @ w = ''set'' @ w' \<and> w' \<noteq> [] \<and> list_all isWordChar w'"
    using h(3,4) by (intro exI[of _ w] conjI refl)
  then have "matches setterRegex (prevOf None pre) (''set'' @ w) post"
    unfolding matches_setter atWordStart_prevOf using h(2) by (intro conjI)
  moreover have "t = pre @ (''set'' @ w) @ post" using h(1) by simp
  ultimately show "rx_test setterRegex t" by (rule rx_testI[rotated])
qed

lemma modifiesThis_iff: "rx_test modifiesThisRegex t \<longleftrightarrow> assignsThisField t"
proof
  assume "rx_test modifiesThisRegex t"
  then obtain pre u post where t: "t = pre @ u @ post"
      and m: "matches modifiesThisRegex (prevOf None pre) u post"
    by (rule rx_testE)
  have mm: "\<not> wordBefore (prevOf None pre) \<and>
      (\<exists>w sp. u = ''this.'' @ w @ sp @ ''='' \<and> w \<noteq> [] \<and> list_all isWordChar w \<and> list_all isWhiteSpace sp)"
    using m unfolding matches_modifiesThis .
  then obtain w sp where w: "u = ''this.'' @ w @ sp @ ''=''" "w \<noteq> []" "list_all isWordChar w"
      "list_all isWhiteSpace sp"
    by (elim exE conjE)
  have nb: "atWordStart pre" using mm unfolding atWordStart_prevOf by simp
  have tt: "t = pre @ ''this.'' @ w @ sp @ ''='' @ post" unfolding t w(1) by simp
  show "assignsThisField t" unfolding assignsThisField_def
    apply (rule exI[of _ pre], rule exI[of _ w], rule exI[of _ sp], rule exI[of _ post])
    using tt w(2,3,4) nb by (intro conjI)
next
  assume "assignsThisField t"
  then obtain pre w sp post where h: "t = pre @ ''this.'' @ w @ sp @ ''='' @ post" "atWordStart pre"
      "w \<noteq> []" "list_all isWordChar w" "list_all isWhiteSpace sp"
    unfolding assignsThisField_def by (elim exE conjE)
  have "\<exists>w' sp'. ''this.'' @ w @ sp @ ''='' = ''this.'' @ w' @ sp' @ ''='' \<and> w' \<noteq> []
      \<and> list_all isWordChar w' \<and> list_all isWhiteSpace sp'"
    apply (rule exI[of _ w], rule exI[of _ sp])
    using h(3,4,5) by (intro conjI refl)
  then have "matches modifiesThisRegex (prevOf None pre) (''this.'' @ w @ sp @ ''='') post"
    unfolding matches_modifiesThis atWordStart_prevOf using h(2) by (intro conjI)
  moreover have "t = pre @ (''this.'' @ w @ sp @ ''='') @ post" using h(1) by simp
  ultimately show "rx_test modifiesThisRegex t" by (rule rx_testI[rotated])
qed

lemma console_iff: "rx_test consoleRegex t \<longleftrightarrow> callsConsole t"
proof
  assume "rx_test consoleRegex t"
  then obtain pre u post where t: "t = pre @ u @ post"
      and m: "matches consoleRegex (prevOf None pre) u post"
    by (rule rx_testE)
  have mm: "atWordStart pre \<and> atWordEnd post
     \<and> (u = ''console.log'' \<or> u = ''console.error'' \<or> u = ''console.warn'')"
    using m unfolding matches_console atWordStart_prevOf atWordEnd_wordAfter .
  then have d: "u = ''console.log'' \<or> u = ''console.error'' \<or> u = ''console.warn''"
    by (elim conjE)
  have "\<exists>mth. u = ''console.'' @ mth \<and> (mth = ''log'' \<or> mth = ''error'' \<or> mth = ''warn'')"
  proof -
    consider "u = ''console.log''" | "u = ''console.error''" | "u = ''console.warn''"
      using d by (elim disjE)
    then show ?thesis
    proof cases
      case 1
      then show ?thesis by (intro exI[of _ "''log''"]) simp
    next
      case 2
      then show ?thesis by (intro exI[of _ "''error''"]) simp
    next
      case 3
      then show ?thesis by (intro exI[of _ "''warn''"]) simp
    qed
  qed
  then obtain mth where mth: "u = ''console.'' @ mth" "mth = ''log'' \<or> mth = ''error'' \<or> mth = ''warn''"
    by (elim exE conjE)
  have tt: "t = pre @ ''console.'' @ mth @ post" unfolding t mth(1) by simp
  show "callsConsole t" unfolding callsConsole_def
    apply (rule exI[of _ pre], rule exI[of _ mth], rule exI[of _ post])
    using tt mth(2) mm by (intro conjI) simp_all
next
  assume "callsConsole t"
  then obtain pre mth post where h: "t = pre @ ''console.'' @ mth @ post" "atWordStart pre"
      "mth = ''log'' \<or> mth = ''error'' \<or> mth = ''warn''" "atWordEnd post"
    unfolding callsConsole_def by (elim exE conjE)
  have "''console.'' @ mth = ''console.log'' \<or> ''console.'' @ mth = ''console.error''
      \<or> ''console.'' @ mth = ''console.warn''"
    using h(3) by (elim disjE) simp_all
  then have "matches consoleRegex (prevOf None pre) (''console.'' @ mth) post"
    unfolding matches_console atWordStart_prevOf atWordEnd_wordAfter using h(2,4) by (intro conjI)
  moreover have "t = pre @ (''console.'' @ mth) @ post" using h(1) by simp
  ultimately show "rx_test consoleRegex t" by (rule rx_testI[rotated])
qed

lemma bare_iff: "rx_test bareAssignmentRegex t \<longleftrightarrow> assignsBareName t"
proof
  assume "rx_test bareAssignmentRegex t"
  then obtain pre0 u post0 where t: "t = pre0 @ u @ post0"
      and m: "matches bareAssignmentRegex (prevOf None pre0) u post0"
    by (rule rx_testE)
  from m obtain lead c x sp op sp2 where u: "u = lead @ (c # x) @ sp @ op @ ''='' @ sp2"
    and lead: "lead = [] \<and> (case prevOf None pre0 of None \<Rightarrow> True | Some d \<Rightarrow> isLineTerminator d)
            \<or> (\<exists>d. lead = [d] \<and> d \<noteq> CHR ''.'')"
    and nb: "\<not> wordBefore (prevOf (prevOf None pre0) lead)"
    and x: "isIdentStart c" "list_all isWordChar x" "list_all isWhiteSpace sp"
    and op: "op = [] \<or> (\<exists>d. op = [d] \<and> isArithOp d)"
    unfolding matches_bare by (elim exE conjE)
  have pre: "pre0 @ lead = [] \<or> (\<not> isWordChar (last (pre0 @ lead)) \<and> last (pre0 @ lead) \<noteq> CHR ''.'')"
    using lead
  proof (elim disjE conjE exE)
    assume l: "lead = []" and p: "case prevOf None pre0 of None \<Rightarrow> True | Some d \<Rightarrow> isLineTerminator d"
    show ?thesis
    proof (cases "pre0 = []")
      case True
      then show ?thesis using l by simp
    next
      case False
      then have "isLineTerminator (last pre0)" using p by (simp add: prevOf_def)
      then show ?thesis using l lineTerminator_plain by simp
    qed
  next
    fix d assume l: "lead = [d]" and d: "d \<noteq> CHR ''.''"
    have "\<not> isWordChar d" using nb l by (simp add: prevOf_def wordBefore_def)
    then show ?thesis using l d by simp
  qed
  have tt: "t = (pre0 @ lead) @ (c # x) @ sp @ op @ ''='' @ (sp2 @ post0)"
    unfolding t u by simp
  have xs: "c # x \<noteq> []" "isIdentStart (hd (c # x))" "list_all isWordChar (c # x)"
    using x by (simp_all add: isIdentStart_word)
  show "assignsBareName t" unfolding assignsBareName_def
    apply (rule exI[of _ "pre0 @ lead"], rule exI[of _ "c # x"], rule exI[of _ sp],
        rule exI[of _ op], rule exI[of _ "sp2 @ post0"])
    using tt pre xs x(3) op by (intro conjI)
next
  assume "assignsBareName t"
  then obtain pre x sp op post where t: "t = pre @ x @ sp @ op @ ''='' @ post"
    and pre: "pre = [] \<or> (\<not> isWordChar (last pre) \<and> last pre \<noteq> CHR ''.'')"
    and x: "x \<noteq> []" "isIdentStart (hd x)" "list_all isWordChar x" "list_all isWhiteSpace sp"
    and op: "op = [] \<or> (\<exists>c. op = [c] \<and> isArithOp c)"
    unfolding assignsBareName_def by (elim exE conjE)
  obtain c x' where cx: "x = c # x'" using x(1) by (cases x) auto
  then have c: "isIdentStart c" "list_all isWordChar x'" using x(2,3) by simp_all
  define pre0 where "pre0 = butlast pre"
  define lead where "lead = (if pre = [] then [] else [last pre])"
  have pl: "pre = pre0 @ lead" by (simp add: pre0_def lead_def)
  have lead: "lead = [] \<and> (case prevOf None pre0 of None \<Rightarrow> True | Some d \<Rightarrow> isLineTerminator d)
            \<or> (\<exists>d. lead = [d] \<and> d \<noteq> CHR ''.'')"
    using pre by (auto simp: lead_def pre0_def prevOf_def)
  have nb: "\<not> wordBefore (prevOf (prevOf None pre0) lead)"
    using pre by (auto simp: lead_def pre0_def prevOf_def wordBefore_def)
  have "\<exists>lead' c' y sp' op' sp2. lead @ (c # x') @ sp @ op @ ''='' @ [] = lead' @ (c' # y) @ sp' @ op' @ ''='' @ sp2
        \<and> (lead' = [] \<and> (case prevOf None pre0 of None \<Rightarrow> True | Some d \<Rightarrow> isLineTerminator d)
            \<or> (\<exists>d. lead' = [d] \<and> d \<noteq> CHR ''.''))
        \<and> \<not> wordBefore (prevOf (prevOf None pre0) lead')
        \<and> isIdentStart c' \<and> list_all isWordChar y \<and> list_all isWhiteSpace sp'
        \<and> (op' = [] \<or> (\<exists>d. op' = [d] \<and> isArithOp d)) \<and> list_all isWhiteSpace sp2"
    apply (rule exI[of _ lead], rule exI[of _ c], rule exI[of _ x'], rule exI[of _ sp],
        rule exI[of _ op], rule exI[of _ "[]"])
    using lead nb c x(4) op by (intro conjI refl) simp_all
  then have "matches bareAssignmentRegex (prevOf None pre0) (lead @ (c # x') @ sp @ op @ ''='' @ []) post"
    unfolding matches_bare .
  moreover have "t = pre0 @ (lead @ (c # x') @ sp @ op @ ''='' @ []) @ post"
    unfolding t pl cx by simp
  ultimately show "rx_test bareAssignmentRegex t" by (rule rx_testI[rotated])
qed

lemma hasSideEffects_examples:
  "hasSideEffects (functionUnit ''f'' ''function f() { return x == 1; }'' 0)"
  "\<not> hasSideEffects (functionUnit ''f'' ''function f() { this.count += 1; }'' 0)"
  "\<not> hasSideEffects_second (functionUnit ''f'' ''function f() { this.count += 1; }'' 0)"
  "hasSideEffects_second (functionUnit ''f'' ''function f() { return this.n == 1; }'' 0)"
  by code_simp+

subsection \<open>Lines and trimming\<close>

lemma splitLines_single: "newline \<notin> set l \<Longrightarrow> splitLines l = [l]"
  by (induction l) auto

lemma splitLines_append:
  "newline \<notin> set l \<Longrightarrow> splitLines (l @ newline # rest) = l # splitLines rest"
  by (induction l) auto

lemma splitLines_nonempty: "splitLines t \<noteq> []"
  by (induction t) (auto split: list.splits)

lemma splitLines_joinLines:
  assumes "ls \<noteq> []" "\<forall>l \<in> set ls. newline \<notin> set l"
  shows "splitLines (joinLines ls) = ls"
  using assms
proof (induction ls)
  case Nil
  then show ?case by simp
next
  case (Cons l ls)
  show ?case
  proof (cases "ls = []")
    case True
    then show ?thesis using Cons.prems by (simp add: joinLines_def splitLines_single)
  next
    case False
    then have "joinLines (l # ls) = l @ newline # joinLines ls"
      by (simp add: joinLines_def)
    then show ?thesis using Cons False by (simp add: splitLines_append)
  qed
qed

lemma joinLines_splitLines: "joinLines (splitLines t) = t"
proof (induction t)
  case Nil
  then show ?case by (simp add: joinLines_def)
next
  case (Cons c t)
  obtain l ls where s: "splitLines t = l # ls" using splitLines_nonempty[of t] by (cases "splitLines t") auto
  show ?case
  proof (cases "c = newline")
    case True
    then show ?thesis using Cons s by (simp add: joinLines_def)
  next
    case False
    then show ?thesis using Cons s by (cases ls) (auto simp: joinLines_def)
  qed
qed

lemma splitLines_no_newline: "l \<in> set (splitLines t) \<Longrightarrow> newline \<notin> set l"
proof (induction t arbitrary: l)
  case Nil
  then show ?case by simp
next
  case (Cons c t)
  then show ?case by (auto split: if_splits list.splits)
qed

lemma trim_padded:
  assumes "\<forall>c \<in> set a. isWhiteSpace c" "\<forall>c \<in> set b. isWhiteSpace c"
    and "m \<noteq> [] \<longrightarrow> \<not> isWhiteSpace (hd m) \<and> \<not> isWhiteSpace (last m)"
  shows "trim (a @ m @ b) = m"
proof (cases "m = []")
  case True
  have "\<forall>c \<in> set (a @ b). isWhiteSpace c" using assms(1,2) by auto
  then have "dropWhile isWhiteSpace (a @ b) = []"
    unfolding dropWhile_eq_Nil_conv .
  then have d: "dropWhile isWhiteSpace (a @ m @ b) = []" by (simp only: True append_Nil)
  show ?thesis unfolding trim_def d using True by simp
next
  case False
  have 1: "dropWhile isWhiteSpace (a @ m @ b) = m @ b"
    using assms(1,3) False by (cases m) (simp_all add: dropWhile_append2)
  have "dropWhile isWhiteSpace (rev b @ rev m) = dropWhile isWhiteSpace (rev m)"
    by (rule dropWhile_append2) (use assms(2) in auto)
  also have "\<dots> = rev m"
    using assms(3) False by (cases m rule: rev_cases) simp_all
  finally have "dropWhile isWhiteSpace (rev b @ rev m) = rev m" .
  then show ?thesis by (simp add: trim_def 1)
qed

lemma trim_decompose:
  fixes l :: string
  defines "a \<equiv> takeWhile isWhiteSpace l"
    and "b \<equiv> rev (takeWhile isWhiteSpace (rev (dropWhile isWhiteSpace l)))"
  shows "l = a @ trim l @ b" and "\<forall>c \<in> set (a @ b). isWhiteSpace c"
    and "trim l \<noteq> [] \<longrightarrow> \<not> isWhiteSpace (hd (trim l)) \<and> \<not> isWhiteSpace (last (trim l))"
proof -
  let ?r = "dropWhile isWhiteSpace l"
  have r: "?r = trim l @ b"
    unfolding b_def by (metis rev_append rev_rev_ident takeWhile_dropWhile_id trim_def)
  show "l = a @ trim l @ b" unfolding a_def using r by (metis takeWhile_dropWhile_id)
  show "\<forall>c \<in> set (a @ b). isWhiteSpace c"
    unfolding a_def b_def by (auto dest: set_takeWhileD)
  have e: "\<not> isWhiteSpace (hd (trim l)) \<and> \<not> isWhiteSpace (last (trim l))" if "trim l \<noteq> []"
  proof -
    have ne: "dropWhile isWhiteSpace (rev ?r) \<noteq> []" using that by (simp add: trim_def)
    have "\<not> isWhiteSpace (hd (dropWhile isWhiteSpace (rev ?r)))" using ne by (rule hd_dropWhile)
    then have la: "\<not> isWhiteSpace (last (trim l))" using ne by (simp add: trim_def last_rev)
    have "?r \<noteq> []" using that r by (metis append_is_Nil_conv)
    then have "\<not> isWhiteSpace (hd ?r)" by (rule hd_dropWhile)
    moreover have "hd ?r = hd (trim l)" using r that by (metis hd_append2)
    ultimately show ?thesis using la by simp
  qed
  then show "trim l \<noteq> [] \<longrightarrow> \<not> isWhiteSpace (hd (trim l)) \<and> \<not> isWhiteSpace (last (trim l))"
    by blast
qed

lemma trimmedLines_linesOfText:
  assumes "linesOfText text parts"
  shows "trimmedLines text = nonEmptyCores parts"
proof -
  have ne: "map paddedLine parts \<noteq> []" using assms by (simp add: linesOfText_def)
  have nl: "\<forall>l \<in> set (map paddedLine parts). newline \<notin> set l"
    using assms by (auto simp: linesOfText_def wellPadded_def paddedLine_def)
  have "splitLines text = map paddedLine parts"
    using assms splitLines_joinLines[OF ne nl] by (simp add: linesOfText_def)
  moreover have "trim (paddedLine p) = coreOf p" if "p \<in> set parts" for p
  proof -
    obtain a m b where p: "p = (a, m, b)" by (cases p)
    have w: "wellPadded (a, m, b)" using assms that p by (simp add: linesOfText_def)
    have "trim (a @ m @ b) = m"
      by (rule trim_padded) (use w in \<open>auto simp: wellPadded_def\<close>)
    then show ?thesis by (simp add: p paddedLine_def coreOf_def)
  qed
  ultimately have "map trim (splitLines text) = map coreOf parts" by simp
  then show ?thesis by (simp add: trimmedLines_def nonEmptyCores_def)
qed

lemma linesOfText_exists: "\<exists>parts. linesOfText text parts"
proof -
  let ?f = "\<lambda>l. (takeWhile isWhiteSpace l, trim l,
                 rev (takeWhile isWhiteSpace (rev (dropWhile isWhiteSpace l))))"
  let ?parts = "map ?f (splitLines text)"
  have pl: "paddedLine (?f l) = l" for l
    using trim_decompose(1)[of l] by (simp add: paddedLine_def)
  have "map paddedLine ?parts = splitLines text"
    by (simp add: o_def pl)
  then have t: "text = joinLines (map paddedLine ?parts)"
    by (simp only: joinLines_splitLines)
  have w: "wellPadded (?f l)" if "l \<in> set (splitLines text)" for l
  proof -
    have "newline \<notin> set l" using that by (rule splitLines_no_newline)
    then have "newline \<notin> set (paddedLine (?f l))" unfolding pl .
    then show ?thesis
      using trim_decompose(2,3)[of l] by (simp add: wellPadded_def paddedLine_def)
  qed
  have "linesOfText text ?parts"
    unfolding linesOfText_def using t w splitLines_nonempty by auto
  then show ?thesis ..
qed

section \<open>Claims\<close>

subsection \<open>Two functions that refer to each other\<close>

text \<open>
  Claim C1, as stated: for a document of exactly two named top-level functions \<open>foo\<close> and
  \<open>bar\<close>, each containing the name of the other, the analysis emits a dependency-cycle
  finding whose message reports the cycle as \<open>foo -> bar -> foo\<close> (or
  \<open>bar -> foo -> bar\<close>). The cycle that \<open>dfs\<close> records is the slice of the path from the
  first occurrence of the node found again, and the path does not hold that node a
  second time: on the document below the only dependency-cycle message reports
  \<open>foo -> bar\<close>.
\<close>

theorem two_function_cycle_counterexample:
  "statements fooBarDocument = [fooUnit, barUnit]
   \<and> includesStr (getText fooUnit) ''bar''
   \<and> includesStr (getText barUnit) ''foo''
   \<and> map message (filter (\<lambda>d. code d = ''clean-code-assistant.dependency-cycle'')
                       (analyzeDocument Warning fooBarDocument))
       = [''Dependency cycle detected: foo -> bar. Refactor to break loops.'']
   \<and> \<not> includesStr ''Dependency cycle detected: foo -> bar. Refactor to break loops.''
           ''foo -> bar -> foo''
   \<and> \<not> includesStr ''Dependency cycle detected: foo -> bar. Refactor to break loops.''
           ''bar -> foo -> bar''"
proof -
  have g: "detectCycles (buildDependencyGraph (getClasses fooBarDocument @ getFunctions fooBarDocument))
      = [[''foo'', ''bar'']]"
    by code_simp
  have m: "map message (filter (\<lambda>d. code d = ''clean-code-assistant.dependency-cycle'')
                       (analyzeDocument Warning fooBarDocument))
       = [''Dependency cycle detected: foo -> bar. Refactor to break loops.'']"
    by (simp add: cycle_diagnostics g cycleDiagnostic_def)
  have i: "includesStr (getText fooUnit) ''bar''"
    "includesStr (getText barUnit) ''foo''"
    "\<not> includesStr ''Dependency cycle detected: foo -> bar. Refactor to break loops.''
           ''foo -> bar -> foo''"
    "\<not> includesStr ''Dependency cycle detected: foo -> bar. Refactor to break loops.''
           ''bar -> foo -> bar''"
    by code_simp+
  show ?thesis using m i by (simp add: fooBarDocument_def)
qed

text \<open>
  Claim C1, amended: for a document of exactly two named top-level functions \<open>foo\<close> and
  \<open>bar\<close>, each containing the name of the other, the analysis emits exactly one
  dependency-cycle finding, and its message reports the cycle as the arrow-joined
  sequence of its nodes, \<open>foo -> bar\<close> when \<open>foo\<close> comes first and \<open>bar -> foo\<close> when \<open>bar\<close>
  comes first.
\<close>

theorem two_function_cycle_message:
  assumes "statements doc = [FunctionDeclaration n1 b1, FunctionDeclaration n2 b2]"
      and "nodeName n1 = Some a" "nodeName n2 = Some b"
      and "(a = ''foo'' \<and> b = ''bar'') \<or> (a = ''bar'' \<and> b = ''foo'')"
      and "includesStr (nodeText n1) b" "includesStr (nodeText n2) a"
  shows "filter (\<lambda>d. code d = ''clean-code-assistant.dependency-cycle'') (analyzeDocument severity doc)
     = [mkDiagnostic (0, textLength doc)
          (''Dependency cycle detected: '' @ a @ '' -> '' @ b @ ''. Refactor to break loops.'')
          severity ''clean-code-assistant.dependency-cycle'']"
proof -
  let ?u1 = "FunctionDeclaration n1 b1" and ?u2 = "FunctionDeclaration n2 b2"
  have units: "getClasses doc @ getFunctions doc = [?u1, ?u2]"
    using assms(1) by (simp add: getClasses_def getFunctions_def)
  have ne: "a \<noteq> []" "b \<noteq> []" "a \<noteq> b" using assms(4) by auto
  have "buildDependencyGraph [?u1, ?u2] = [(a, [b]), (b, [a])]"
    using assms(2,3,5,6) ne by (intro two_unit_graph) (simp_all add: getName_def getText_def)
  then have "detectCycles (buildDependencyGraph [?u1, ?u2]) = [[a, b]]"
    using two_node_cycle[OF ne(3)] by simp
  then show ?thesis
    by (simp add: cycle_diagnostics units cycleDiagnostic_def)
qed

theorem two_function_cycle_message_witness:
  "filter (\<lambda>d. code d = ''clean-code-assistant.dependency-cycle'') (analyzeDocument Warning fooBarDocument)
     = [mkDiagnostic (0, 51) ''Dependency cycle detected: foo -> bar. Refactor to break loops.''
          Warning ''clean-code-assistant.dependency-cycle'']"
proof -
  have i: "includesStr ''function foo() { bar(); }'' ''bar''" "includesStr ''function bar() { foo(); }'' ''foo''"
    by code_simp+
  show ?thesis
    using two_function_cycle_message [of fooBarDocument
        "\<lparr>nodeName = Some ''foo'', nodeText = ''function foo() { bar(); }'', nodeStart = 0, nodeEnd = 0 + length ''function foo() { bar(); }''\<rparr>"
        "Some \<lparr>ifStatements = 0, forStatements = 0, whileStatements = 0\<rparr>"
        "\<lparr>nodeName = Some ''bar'', nodeText = ''function bar() { foo(); }'', nodeStart = 26, nodeEnd = 26 + length ''function bar() { foo(); }''\<rparr>"
        "Some \<lparr>ifStatements = 0, forStatements = 0, whileStatements = 0\<rparr>"
        "''foo''" "''bar''" Warning] i
    by (simp add: fooBarDocument_def fooUnit_def barUnit_def functionUnit_def)
qed


subsection \<open>A function named a\<close>

text \<open>
  Claim C2, as stated: for every function unit named \<open>a\<close> whose average indentation is
  outside the band from 2 to 4, \<open>evaluateReadability\<close> applies all four penalties, so the
  score is at most 35, and a readability finding is emitted. The name \<open>a\<close> matches the
  pattern of names, so the first penalty is not applied: the score of the function below
  is above 35.
\<close>

theorem readability_name_a_counterexample:
  "getName (functionUnit ''a'' ''function a(){}'' 0) = Some ''a''
   \<and> (avgIndent (getText (functionUnit ''a'' ''function a(){}'' 0)) < 2
      \<or> avgIndent (getText (functionUnit ''a'' ''function a(){}'' 0)) > 4)
   \<and> \<not> evaluateReadability (functionUnit ''a'' ''function a(){}'' 0) \<le> 35"
  by code_simp


text \<open>
  Claim C2, amended: for every unit named \<open>a\<close> whose average indentation is outside the
  band from 2 to 4, \<open>evaluateReadability\<close> applies the three penalties for a short name
  (10), a lowercase start (20) and the indentation (15), and not the penalty for the
  pattern of names, which \<open>a\<close> matches; the score is 55, and a readability finding with
  that score is the first finding of the unit, since 55 is below 90.
\<close>

theorem readability_name_a:
  assumes "getName unit = Some ''a''"
      and "avgIndent (getText unit) < 2 \<or> avgIndent (getText unit) > 4"
  shows "evaluateReadability unit = 55
     \<and> (\<exists>rest. analyzeUnitChecks severity unit [] =
           mkDiagnostic (unitRange unit)
             ''Poor readability: Use meaningful names, consistent formatting. Score: 55/100''
             severity ''clean-code-assistant.readability'' # rest)"
proof -
  have s: "evaluateReadability unit = 55"
    using assms name_a_tests by (simp add: evaluateReadability_def)
  show ?thesis
    by (simp add: s analyzeUnitChecks_parts[of severity unit "[]"] toString_55)
qed

theorem readability_name_a_witness:
  "evaluateReadability (functionUnit ''a'' ''function a(){}'' 0) = 55
   \<and> (\<exists>rest. analyzeUnitChecks Warning (functionUnit ''a'' ''function a(){}'' 0) [] =
         mkDiagnostic (unitRange (functionUnit ''a'' ''function a(){}'' 0))
           ''Poor readability: Use meaningful names, consistent formatting. Score: 55/100''
           Warning ''clean-code-assistant.readability'' # rest)"
proof -
  have n: "getName (functionUnit ''a'' ''function a(){}'' 0) = Some ''a''"
    by (simp add: functionUnit_def getName_def)
  have i: "avgIndent (getText (functionUnit ''a'' ''function a(){}'' 0)) < 2
         \<or> avgIndent (getText (functionUnit ''a'' ''function a(){}'' 0)) > 4"
    by code_simp
  show ?thesis by (rule readability_name_a [OF n i])
qed


subsection \<open>The two variants of the side-effect test\<close>

text \<open>
  Claim C3, as stated: for every unit the side-effect predicates of the two variants of
  the engine return the same boolean, both testing for an assignment to an instance
  field, console output, or a bare assignment. The second variant tests for an
  assignment to an instance field or a word that starts with \<open>set\<close>; on a function that
  only writes to the console the first variant reports and the second does not.
\<close>

theorem hasSideEffects_variants_counterexample:
  "hasSideEffects (functionUnit ''f'' ''function f() { console.log(1); }'' 0)
   \<and> \<not> hasSideEffects_second (functionUnit ''f'' ''function f() { console.log(1); }'' 0)"
  by code_simp


text \<open>
  Claim C3, amended: the first variant reports side effects exactly when the text of the
  unit contains one of three patterns: (a) \<open>this.\<close> not preceded by a word character, then
  one or more word characters, any white space, and \<open>=\<close>; (b) \<open>console.\<close> not preceded by a
  word character, then \<open>log\<close>, \<open>error\<close> or \<open>warn\<close>, not followed by a word character; (c) a
  run of word characters that begins with a letter or an underscore and stands at the
  start of the text or after a character that is neither a word character nor a dot,
  then any white space, at most one of \<open>+\<close>, \<open>-\<close>, \<open>*\<close>, \<open>/\<close>, and \<open>=\<close>. The second variant
  reports exactly when the text contains pattern (a), or \<open>set\<close> not preceded by a word
  character and followed by at least one word character. What follows the \<open>=\<close> is not
  looked at: the comparison \<open>x == 1\<close> has pattern (c) and \<open>this.n == 1\<close> has pattern (a),
  while \<open>this.count += 1\<close> has none of the patterns. The two variants agree on a unit
  exactly when its text contains pattern (a), or contains one of (b) and (c) exactly if
  it contains such a \<open>set\<close> word.
\<close>

theorem hasSideEffects_variants:
  "hasSideEffects unit
     = (assignsThisField (getText unit) \<or> callsConsole (getText unit) \<or> assignsBareName (getText unit))
   \<and> hasSideEffects_second unit
     = (assignsThisField (getText unit) \<or> hasSetWord (getText unit))
   \<and> ((hasSideEffects unit = hasSideEffects_second unit)
     = (assignsThisField (getText unit)
        \<or> ((callsConsole (getText unit) \<or> assignsBareName (getText unit))
             = hasSetWord (getText unit))))"
proof -
  have 1: "hasSideEffects unit
     = (assignsThisField (getText unit) \<or> callsConsole (getText unit) \<or> assignsBareName (getText unit))"
    by (simp add: hasSideEffects_def Let_def modifiesThis_iff console_iff bare_iff)
  have 2: "hasSideEffects_second unit = (assignsThisField (getText unit) \<or> hasSetWord (getText unit))"
    by (simp add: hasSideEffects_second_def Let_def modifiesThis_iff setter_iff)
  show ?thesis unfolding 1 2 by blast
qed

theorem hasSideEffects_variants_witness:
  "assignsThisField (getText thisAssignUnit)
   \<and> hasSideEffects thisAssignUnit \<and> hasSideEffects_second thisAssignUnit"
proof -
  have t: "getText thisAssignUnit = ''function f() { '' @ ''this.'' @ ''n'' @ '' '' @ ''='' @ '' 1; }''"
    by code_simp
  have a: "assignsThisField (getText thisAssignUnit)"
    unfolding assignsThisField_def t
    apply (rule exI[of _ "''function f() { ''"], rule exI[of _ "''n''"],
           rule exI[of _ "'' ''"], rule exI[of _ "'' 1; }''"])
    by (simp add: atWordStart_def char_class_defs)
  then show ?thesis using hasSideEffects_variants [of thisAssignUnit] by blast
qed


subsection \<open>The order of the findings\<close>

text \<open>
  Claim C4, as stated: the findings of the units come unit by unit in document order,
  each unit in the fixed order of the rules, then the dependency cycles, then the
  cross-unit duplications. The unit list is the classes followed by the functions, so
  a class that follows a function in the document is reported before it: below, the
  function starts at offset 0 and the class at offset 15, and the finding of the class
  comes first.
\<close>

theorem findings_order_counterexample:
  "map getStart (statements functionThenClassDocument) = [0, 15]
   \<and> map rangeOf (analyzeDocument Warning functionThenClassDocument) = [(15, 24), (0, 14)]"
  by code_simp

text \<open>
  Claim C4, amended: the findings of one analysis pass are, for each unit of the unit
  list (all classes in document order, then all functions in document order), the
  findings of that unit in the fixed order readability, size, complexity, god class,
  SRP, duplication, testability, side effects, each under its condition and each on the
  range of the unit; then one finding for each dependency cycle; and last the findings
  of the cross-unit comparison, which carry the duplication code.
\<close>

theorem findings_order:
  "analyzeDocument severity doc =
     concat (map (\<lambda>unit. analyzeUnitChecks severity unit []) (getClasses doc @ getFunctions doc))
     @ map (cycleDiagnostic severity doc)
         (detectCycles (buildDependencyGraph (getClasses doc @ getFunctions doc)))
     @ crossUnitChecks severity (getFunctions doc)
   \<and> map code (analyzeUnitChecks severity unit []) = map snd (filter fst (unitRuleOrder unit))
   \<and> (\<forall>d \<in> set (analyzeUnitChecks severity unit []). rangeOf d = unitRange unit)
   \<and> code (cycleDiagnostic severity doc cycle) = ''clean-code-assistant.dependency-cycle''
   \<and> (\<forall>d \<in> set (crossUnitChecks severity (getFunctions doc)).
         code d = ''clean-code-assistant.duplication'')"
  using analyzeDocument_parts[of severity doc] analyzeUnitChecks_codes[of severity unit]
    analyzeUnitChecks_ranges[of _ severity unit] crossUnitChecks_code[of _ severity "getFunctions doc"]
  by (simp add: cycleDiagnostic_def)

theorem findings_order_witness:
  "map code (analyzeDocument Warning fooBarDocument) =
     [''clean-code-assistant.readability'', ''clean-code-assistant.readability'',
      ''clean-code-assistant.dependency-cycle'',
      ''clean-code-assistant.duplication'', ''clean-code-assistant.duplication'']
   \<and> mkDiagnostic (0, 25) ''Code duplication: Similar logic to function bar.'' Warning
         ''clean-code-assistant.duplication''
       \<in> set (crossUnitChecks Warning (getFunctions fooBarDocument))
   \<and> mkDiagnostic (0, 25)
         ''Poor readability: Use meaningful names, consistent formatting. Score: 65/100'' Warning
         ''clean-code-assistant.readability''
       \<in> set (analyzeUnitChecks Warning fooUnit [])"
proof -
  have u: "analyzeUnitChecks Warning fooUnit [] =
      [mkDiagnostic (0, 25)
         ''Poor readability: Use meaningful names, consistent formatting. Score: 65/100'' Warning
         ''clean-code-assistant.readability'']"
    by code_simp
  have u2: "map code (analyzeUnitChecks Warning barUnit []) =
      [''clean-code-assistant.readability'']"
    by code_simp
  have c: "detectCycles (buildDependencyGraph [fooUnit, barUnit]) = [[''foo'', ''bar'']]"
    by code_simp
  have x: "crossUnitChecks Warning (getFunctions fooBarDocument) =
      [mkDiagnostic (0, 25) ''Code duplication: Similar logic to function bar.'' Warning
         ''clean-code-assistant.duplication'',
       mkDiagnostic (26, 51) ''Code duplication: Similar logic to function foo.'' Warning
         ''clean-code-assistant.duplication'']"
    by code_simp
  have us: "getClasses fooBarDocument @ getFunctions fooBarDocument
      = [fooUnit, barUnit]"
    by (simp add: getClasses_def getFunctions_def fooBarDocument_def fooUnit_def barUnit_def functionUnit_def)
  from findings_order [of Warning fooBarDocument fooUnit "[]"]
  have "analyzeDocument Warning fooBarDocument =
     concat (map (\<lambda>unit. analyzeUnitChecks Warning unit []) (getClasses fooBarDocument @ getFunctions fooBarDocument))
     @ map (cycleDiagnostic Warning fooBarDocument)
         (detectCycles (buildDependencyGraph (getClasses fooBarDocument @ getFunctions fooBarDocument)))
     @ crossUnitChecks Warning (getFunctions fooBarDocument)"
    by blast
  then have "map code (analyzeDocument Warning fooBarDocument) =
     [''clean-code-assistant.readability'', ''clean-code-assistant.readability'',
      ''clean-code-assistant.dependency-cycle'',
      ''clean-code-assistant.duplication'', ''clean-code-assistant.duplication'']"
    by (simp add: us u u2 c x cycleDiagnostic_def)
  then show ?thesis by (simp add: u x)
qed


subsection \<open>Copies under other names\<close>

text \<open>
  Claim C5, as stated: for every pair of function texts that are identical except for
  their identifier names, \<open>textSimilarity\<close> returns exactly 1, unless a normalized string
  is longer than 1000 code units. The names \<open>$1\<close> and \<open>$2\<close> are identifiers of the
  language, but the pattern of \<open>normalizeForDuplication\<close> takes only a letter or an
  underscore followed by letters, digits and underscores for an identifier: the two
  functions below differ in their names only and their similarity is 8/9.
\<close>

theorem textSimilarity_dollar_names_counterexample:
  "length (normalizeForDuplication ''function $1(){}'') \<le> 1000
   \<and> length (normalizeForDuplication ''function $2(){}'') \<le> 1000
   \<and> textSimilarity ''function $1(){}'' ''function $2(){}'' = 8 / 9"
  by code_simp


text \<open>
  Claim C5, amended: for every pair of texts that are identical except for the names
  matched by the pattern of \<open>normalizeForDuplication\<close> (a letter or an underscore, then
  letters, digits and underscores), the normalized forms are equal and \<open>textSimilarity\<close>
  returns exactly 1, unless a normalized string is longer than 1000 code units, where it
  returns 0.
\<close>

theorem textSimilarity_sameExceptNames:
  "sameExceptNames a b \<Longrightarrow>
   textSimilarity a b =
     (if length (normalizeForDuplication a) > 1000 \<or> length (normalizeForDuplication b) > 1000
      then 0 else 1)"
proof -
  assume "sameExceptNames a b"
  then have eq: "normalizeForDuplication a = normalizeForDuplication b"
    by (rule normalize_sameExceptNames)
  show ?thesis
    by (simp add: textSimilarity_def Let_def eq levenshtein_same)
qed

theorem textSimilarity_sameExceptNames_witness:
  "sameExceptNames ''function foo(n){ return n + 1; }'' ''function bar(m){ return m + 1; }''
   \<and> textSimilarity ''function foo(n){ return n + 1; }'' ''function bar(m){ return m + 1; }'' = 1"
proof -
  have h: "sameExceptNames ''function foo(n){ return n + 1; }'' ''function bar(m){ return m + 1; }''"
    by code_simp
  have l: "\<not> (length (normalizeForDuplication ''function foo(n){ return n + 1; }'') > 1000
             \<or> length (normalizeForDuplication ''function bar(m){ return m + 1; }'') > 1000)"
    by code_simp
  from textSimilarity_sameExceptNames [OF h] l h show ?thesis by simp
qed


subsection \<open>Similarity is symmetric\<close>

text \<open>
  Claim C6. For every pair of strings \<open>a\<close> and \<open>b\<close>, \<open>textSimilarity a b\<close> equals
  \<open>textSimilarity b a\<close>: the length cap and the case of two empty normalized strings are
  symmetric tests, and the table of the edit distance gives the same number when the
  two strings are exchanged.
\<close>

theorem textSimilarity_symmetric: "textSimilarity a b = textSimilarity b a"
  by (simp add: textSimilarity_def Let_def levenshtein_sym[of "normalizeForDuplication a"]
      max.commute disj_commute conj_commute)

theorem textSimilarity_symmetric_witness:
  "textSimilarity ''function f(a) { return a + 1; }'' ''let x = 2''
     = textSimilarity ''let x = 2'' ''function f(a) { return a + 1; }''"
  by (rule textSimilarity_symmetric)

subsection \<open>The readability score stays between 0 and 100\<close>

text \<open>
  Claim C7. For every unit, \<open>evaluateReadability\<close> returns an integer between 0 and 100:
  the score starts at 100, only the fixed penalties 20, 10, 20 and 15 are subtracted, and
  the result is the maximum of 0 and the score.
\<close>

theorem evaluateReadability_range:
  "0 \<le> evaluateReadability unit \<and> evaluateReadability unit \<le> 100"
  by (simp add: evaluateReadability_def Let_def)

theorem evaluateReadability_range_witness:
  "0 \<le> evaluateReadability (functionUnit ''a_b'' ''function a_b(){}'' 0)
   \<and> evaluateReadability (functionUnit ''a_b'' ''function a_b(){}'' 0) \<le> 100"
  by (rule evaluateReadability_range)

subsection \<open>Duplication inside a unit\<close>

text \<open>
  Claim C8. For every unit, \<open>hasDuplication\<close> flags the unit exactly when, among the
  trimmed non-empty lines of its text, the number of distinct lines divided by the
  number of lines is below 0.8; a unit whose trimmed non-empty lines are all distinct is
  never flagged. The lines are stated without the functions of the code: every text is,
  in one way or another, a list of lines joined by line feeds, each line without a line
  feed and made of white space, a core that neither starts nor ends with white space,
  and white space; the trimmed non-empty lines are the cores that are not empty, in
  their order. The source compares the number of distinct lines with 0.8 times the
  number of lines; the quotient of the claim exists when there is at least one line,
  and without any line the source does not flag. The unit below the theorem has seven
  lines, one of them empty and one with white space at its end; of its six cores that
  are not empty three are distinct, and it is flagged.
\<close>

theorem hasDuplication_ratio:
  "(\<exists>parts. linesOfText (getText unit) parts)
   \<and> (\<forall>parts. linesOfText (getText unit) parts \<longrightarrow>
        hasDuplication unit =
          (nonEmptyCores parts \<noteq> [] \<and>
           (of_nat (card (set (nonEmptyCores parts)))
              / of_nat (length (nonEmptyCores parts)) :: rat) < 8 / 10)
        \<and> (distinct (nonEmptyCores parts) \<longrightarrow> \<not> hasDuplication unit))"
proof (intro conjI allI impI)
  show "\<exists>parts. linesOfText (getText unit) parts" by (rule linesOfText_exists)
next
  fix parts
  assume lt: "linesOfText (getText unit) parts"
  define ls where "ls = nonEmptyCores parts"
  have tl: "trimmedLines (getText unit) = ls"
    unfolding ls_def using lt by (rule trimmedLines_linesOfText)
  have h: "hasDuplication unit = ((of_nat (card (set ls)) :: rat) < of_nat (length ls) * (8 / 10))"
    by (simp add: hasDuplication_def Let_def tl length_remdups_card_conv)
  show "hasDuplication unit =
          (nonEmptyCores parts \<noteq> [] \<and>
           (of_nat (card (set (nonEmptyCores parts)))
              / of_nat (length (nonEmptyCores parts)) :: rat) < 8 / 10)"
  proof (cases "ls = []")
    case True
    then show ?thesis by (simp add: h flip: ls_def)
  next
    case False
    then have "(0::rat) < of_nat (length ls)" by simp
    then show ?thesis using False by (simp add: h pos_divide_less_eq mult.commute flip: ls_def)
  qed
  assume "distinct (nonEmptyCores parts)"
  then have "card (set ls) = length ls" unfolding ls_def by (rule distinct_card)
  moreover have "(of_nat (length ls) :: rat) * (8 / 10) \<le> of_nat (length ls)"
    by (simp add: mult_left_le)
  ultimately show "\<not> hasDuplication unit" by (simp add: h)
qed

theorem hasDuplication_ratio_witness:
  "getText dupUnit = joinLines (map paddedLine dupParts)
   \<and> nonEmptyCores dupParts = [''function f() {'', ''g();'', ''g();'', ''g();'', ''g();'', ''}'']
   \<and> hasDuplication dupUnit"
proof -
  have lt: "linesOfText (getText dupUnit) dupParts" by code_simp
  have c: "nonEmptyCores dupParts = [''function f() {'', ''g();'', ''g();'', ''g();'', ''g();'', ''}'']"
    by code_simp
  have r: "nonEmptyCores dupParts \<noteq> [] \<and>
           (of_nat (card (set (nonEmptyCores dupParts)))
              / of_nat (length (nonEmptyCores dupParts)) :: rat) < 8 / 10"
    unfolding c by simp
  have "hasDuplication dupUnit" using hasDuplication_ratio [of dupUnit] lt r by blast
  then show ?thesis using lt c by (simp add: linesOfText_def)
qed

subsection \<open>Similarity lies between 0 and 1\<close>

text \<open>
  Claim C9. For every pair of strings \<open>a\<close> and \<open>b\<close>, \<open>textSimilarity a b\<close> lies in the
  closed interval from 0 to 1: the edit distance of the normalized strings never exceeds
  the larger of their lengths, so outside the cap and the case of two empty strings the
  quotient lies between 0 and 1.
\<close>

theorem textSimilarity_unit_interval:
  "0 \<le> textSimilarity a b \<and> textSimilarity a b \<le> 1
   \<and> levenshtein (normalizeForDuplication a) (normalizeForDuplication b)
       \<le> max (length (normalizeForDuplication a)) (length (normalizeForDuplication b))"
proof -
  define na nb where "na = normalizeForDuplication a" and "nb = normalizeForDuplication b"
  have le: "levenshtein na nb \<le> max (length na) (length nb)" by (rule levenshtein_le_max)
  then have "(of_nat (levenshtein na nb) :: rat) \<le> of_nat (max (length na) (length nb))"
    by (simp only: of_nat_le_iff)
  moreover have "(0::rat) \<le> of_nat (levenshtein na nb)" by simp
  ultimately have q: "(of_nat (levenshtein na nb) :: rat) / of_nat (max (length na) (length nb)) \<le> 1"
    "(0::rat) \<le> of_nat (levenshtein na nb) / of_nat (max (length na) (length nb))"
    by (auto simp: divide_le_eq_1)
  show ?thesis using q le
    by (auto simp: textSimilarity_def Let_def na_def nb_def)
qed

theorem textSimilarity_unit_interval_witness:
  "0 \<le> textSimilarity ''function f(a) { return a + 1; }'' ''let x = 2''
   \<and> textSimilarity ''function f(a) { return a + 1; }'' ''let x = 2'' \<le> 1
   \<and> levenshtein (normalizeForDuplication ''function f(a) { return a + 1; }'')
         (normalizeForDuplication ''let x = 2'')
       \<le> max (length (normalizeForDuplication ''function f(a) { return a + 1; }''))
             (length (normalizeForDuplication ''let x = 2''))"
  by (rule textSimilarity_unit_interval)

subsection \<open>The targets of the edges\<close>

text \<open>
  Claim C10, as stated: in the graph of \<open>buildDependencyGraph\<close> every name in a dependency
  list is the name of a unit of the list and differs from the key it is listed under; in
  particular the units without a name, keyed as \<open>anonymous\<close>, are never the target of an
  edge, so no reported cycle passes through a unit without a name. A unit may itself be
  named \<open>anonymous\<close>; it then shares its key with the units without a name, and the entry
  of the key holds the dependency list of the unit that was processed last. Below, the
  function named \<open>anonymous\<close> refers to nothing, the function \<open>foo\<close> refers to it, and
  the function without a name refers to \<open>foo\<close>: the key \<open>anonymous\<close> is the target of an
  edge and carries the dependency list of the function without a name, and the
  reported cycle exists through that list only.
\<close>

theorem dependency_targets_anonymous_counterexample:
  "getName (anonymousUnits ! 2) = None
   \<and> orElse (getName (anonymousUnits ! 2)) ''anonymous'' = ''anonymous''
   \<and> buildDependencyGraph anonymousUnits = [(''anonymous'', [''foo'']), (''foo'', [''anonymous''])]
   \<and> unitDeps anonymousUnits ''anonymous'' (getText (anonymousUnits ! 0)) = []
   \<and> unitDeps anonymousUnits ''anonymous'' (getText (anonymousUnits ! 2)) = [''foo'']
   \<and> detectCycles (buildDependencyGraph anonymousUnits) = [[''anonymous'', ''foo'']]"
  by code_simp

text \<open>
  Claim C10, amended: in the graph of \<open>buildDependencyGraph\<close> every name in a dependency
  list is the name of a unit of the list and differs from the key it is listed under; in
  particular, when no unit of the list is itself named \<open>anonymous\<close>, the key \<open>anonymous\<close>
  of the units without a name occurs in no dependency list, and in no cycle that
  \<open>detectCycles\<close> reports on the graph.
\<close>

theorem dependency_targets_named:
  "(\<forall>(k, deps) \<in> set (buildDependencyGraph units). \<forall>d \<in> set deps.
       d \<noteq> k \<and> (\<exists>u \<in> set units. getName u = Some d))
   \<and> ((\<forall>u \<in> set units. getName u \<noteq> Some ''anonymous'') \<longrightarrow>
        (\<forall>(k, deps) \<in> set (buildDependencyGraph units). ''anonymous'' \<notin> set deps)
        \<and> (\<forall>c \<in> set (detectCycles (buildDependencyGraph units)). ''anonymous'' \<notin> set c))"
proof -
  have 1: "d \<noteq> k \<and> (\<exists>u \<in> set units. getName u = Some d)"
    if "(k, deps) \<in> set (buildDependencyGraph units)" "d \<in> set deps" for k deps d
    using buildDependencyGraph_edges[OF that] by blast
  have 2: "''anonymous'' \<notin> edgeTargets (buildDependencyGraph units)"
    if "\<forall>u \<in> set units. getName u \<noteq> Some ''anonymous''"
    using that 1 by (fastforce simp: edgeTargets_def)
  have 3: "''anonymous'' \<notin> set c"
    if "\<forall>u \<in> set units. getName u \<noteq> Some ''anonymous''" "c \<in> set (detectCycles (buildDependencyGraph units))" for c
    using 2[OF that(1)] detectCycles_targets[OF that(2)] by blast
  have 4: "''anonymous'' \<notin> set deps"
    if "\<forall>u \<in> set units. getName u \<noteq> Some ''anonymous''" "(k, deps) \<in> set (buildDependencyGraph units)" for k deps
    using 2[OF that(1)] that(2) by (force simp: edgeTargets_def)
  show ?thesis using 1 3 4 by blast
qed

theorem dependency_targets_named_witness:
  "getName (namelessCallerUnits ! 0) = Some ''foo'' \<and> getName (namelessCallerUnits ! 1) = Some ''bar''
   \<and> getName (namelessCallerUnits ! 2) = None
   \<and> buildDependencyGraph namelessCallerUnits
       = [(''foo'', [''bar'']), (''bar'', [''foo'']), (''anonymous'', [''foo''])]
   \<and> detectCycles (buildDependencyGraph namelessCallerUnits) = [[''foo'', ''bar'']]
   \<and> ''anonymous'' \<notin> set [''bar''] \<and> ''anonymous'' \<notin> set [''foo'']
   \<and> ''anonymous'' \<notin> set [''foo'', ''bar'']"
proof -
  have n: "\<forall>u \<in> set namelessCallerUnits. getName u \<noteq> Some ''anonymous''"
    by code_simp
  have g: "buildDependencyGraph namelessCallerUnits
       = [(''foo'', [''bar'']), (''bar'', [''foo'']), (''anonymous'', [''foo''])]"
    by code_simp
  have c: "detectCycles [(''foo'', [''bar'']), (''bar'', [''foo'']), (''anonymous'', [''foo''])]
       = [[''foo'', ''bar'']]"
    by code_simp
  have u: "getName (namelessCallerUnits ! 0) = Some ''foo''"
    "getName (namelessCallerUnits ! 1) = Some ''bar''"
    "getName (namelessCallerUnits ! 2) = None"
    by code_simp+
  from dependency_targets_named [of namelessCallerUnits] n
  have "(\<forall>(k, deps) \<in> set (buildDependencyGraph namelessCallerUnits). ''anonymous'' \<notin> set deps)"
    "\<forall>c \<in> set (detectCycles (buildDependencyGraph namelessCallerUnits)). ''anonymous'' \<notin> set c"
    by blast+
  then show ?thesis using u by (simp add: g c)
qed

end
